theory Spec2Isabelle
  imports Complex_Main
begin

section \<open>The dependency graph (lib/systemMap.ts)\<close>

text \<open>
  The interfaces \<open>SystemMapService\<close> and \<open>SystemMap\<close> of types/index.ts. Every
  attribute of a service is optional. The \<open>services\<close> object is kept as the list of
  its entries in the order \<open>Object.entries\<close> enumerates them; a property read
  \<open>systemMap.services[name]\<close> is \<open>map_of\<close> on that list.
\<close>

record SystemMapService =
  file' :: "string option"
  functions' :: "string list option"
  depends_on :: "string list option"
  endpoints :: "string list option"
  description :: "string option"

record SystemMap =
  services :: "(string \<times> SystemMapService) list"
  version :: "string option"
  updated_at :: "string option"

text \<open>
  A JavaScript \<open>Set\<close> of strings is kept as the list of its members in insertion
  order, which is the order \<open>Array.from\<close> and the spread operator read it in.
\<close>

definition Set_add :: "'a \<Rightarrow> 'a list \<Rightarrow> 'a list" where
  "Set_add x s = (if x \<in> set s then s else s @ [x])"

definition new_Set :: "'a list \<Rightarrow> 'a list" where
  "new_Set xs = fold Set_add xs []"

text \<open>
  \<open>findServiceDependencies\<close>: the \<open>visited\<close> set is one mutable object shared by all
  recursive calls, so the model threads it through and returns it next to the result.
  \<open>findServiceDependencies_loop\<close> is the \<open>for (const dep of service.depends_on)\<close> loop;
  its third argument is the array \<open>dependencies\<close> being pushed to.
\<close>

function findServiceDependencies ::
    "string \<Rightarrow> SystemMap \<Rightarrow> string list \<Rightarrow> string list \<times> string list"
  and findServiceDependencies_loop ::
    "string list \<Rightarrow> SystemMap \<Rightarrow> string list \<Rightarrow> string list \<Rightarrow> string list \<times> string list"
where
  "findServiceDependencies serviceName systemMap visited =
     (if serviceName \<in> set visited then ([], visited)
      else
        (case map_of (services systemMap) serviceName of
           None \<Rightarrow> ([], Set_add serviceName visited)
         | Some service \<Rightarrow>
             (case depends_on service of
                None \<Rightarrow> ([], Set_add serviceName visited)
              | Some deps \<Rightarrow>
                  (case findServiceDependencies_loop deps systemMap deps
                          (Set_add serviceName visited) of
                     (dependencies, visited') \<Rightarrow> (new_Set dependencies, visited')))))"
| "findServiceDependencies_loop [] systemMap dependencies visited = (dependencies, visited)"
| "findServiceDependencies_loop (dep # rest) systemMap dependencies visited =
     (case findServiceDependencies dep systemMap visited of
        (found, visited') \<Rightarrow>
          findServiceDependencies_loop rest systemMap (dependencies @ found) visited')"
  by pat_completeness auto

text \<open>
  The recursion is nested: the loop continues with the \<open>visited\<close> set that the
  recursive call returns. The set only grows, and each call that enters the loop adds
  a declared service that was not in it, so the number of declared services outside
  \<open>visited\<close> bounds the depth of the recursion.
\<close>

lemma set_Set_add [simp]: "set (Set_add x s) = insert x (set s)"
  by (auto simp: Set_add_def)

lemma findServiceDependencies_visited_grows_dom:
  "findServiceDependencies_findServiceDependencies_loop_dom (Inl (s, g, vis)) \<Longrightarrow>
     set vis \<subseteq> set (snd (findServiceDependencies s g vis))"
  "findServiceDependencies_findServiceDependencies_loop_dom (Inr (ds, g, acc, vis)) \<Longrightarrow>
     set vis \<subseteq> set (snd (findServiceDependencies_loop ds g acc vis))"
proof (induct rule: findServiceDependencies_findServiceDependencies_loop.pinduct)
  case (1 serviceName systemMap visited)
  show ?case
  proof (cases "serviceName \<in> set visited")
    case True
    with 1(1) show ?thesis by (simp add: findServiceDependencies.psimps)
  next
    case False
    show ?thesis
    proof (cases "map_of (services systemMap) serviceName")
      case None
      with False 1(1) show ?thesis by (auto simp: findServiceDependencies.psimps)
    next
      case (Some service)
      show ?thesis
      proof (cases "depends_on service")
        case None
        with Some False 1(1) show ?thesis by (auto simp: findServiceDependencies.psimps)
      next
        case (Some deps)
        from 1(2)[OF False \<open>map_of (services systemMap) serviceName = Some service\<close> Some]
        have "set (Set_add serviceName visited)
                \<subseteq> set (snd (findServiceDependencies_loop deps systemMap deps (Set_add serviceName visited)))" .
        with Some False \<open>map_of (services systemMap) serviceName = Some service\<close> 1(1)
        show ?thesis
          by (auto simp: findServiceDependencies.psimps split: prod.splits)
      qed
    qed
  qed
next
  case (2 systemMap dependencies visited)
  then show ?case by (simp add: findServiceDependencies_loop.psimps)
next
  case (3 dep rest systemMap dependencies visited)
  obtain found visited' where r: "findServiceDependencies dep systemMap visited = (found, visited')"
    by (cases "findServiceDependencies dep systemMap visited")
  from 3(2) r have a: "set visited \<subseteq> set visited'" by simp
  from 3(3)[of found visited'] r
  have b: "set visited' \<subseteq> set (snd (findServiceDependencies_loop rest systemMap (dependencies @ found) visited'))"
    by simp
  from 3(1) r a b show ?case
    by (simp add: findServiceDependencies_loop.psimps)
qed

lemma card_unvisited_less:
  assumes "map_of kvs s = Some v" "s \<notin> set vis"
  shows "card (set (map fst kvs) - insert s (set vis)) < card (set (map fst kvs) - set vis)"
proof -
  have "s \<in> set (map fst kvs)" using assms(1) by (metis map_of_eq_None_iff option.distinct(1) set_map)
  then have "set (map fst kvs) - insert s (set vis) \<subset> set (map fst kvs) - set vis"
    using assms(2) by auto
  then show ?thesis by (intro psubset_card_mono) auto
qed

termination findServiceDependencies
proof (relation "inv_image (less_than <*lex*> less_than)
     (\<lambda>x. case x of
         Inl (s, g, vis) \<Rightarrow> (card (set (map fst (services g)) - set vis), 0)
       | Inr (ds, g, acc, vis) \<Rightarrow> (card (set (map fst (services g)) - set vis), Suc (length ds)))", goal_cases)
  case 1
  show ?case by (intro wf_inv_image wf_lex_prod wf_less_than)
next
  case (2 serviceName systemMap visited x2 x2a)
  then show ?case using card_unvisited_less[of "services systemMap" serviceName x2 visited] by simp
next
  case (3 dep rest systemMap dependencies visited)
  then show ?case by simp
next
  case (4 dep rest systemMap dependencies visited x y)
  from findServiceDependencies_visited_grows_dom(1)[OF 4(2)] 4(1)
  have "set visited \<subseteq> set y" by (metis snd_conv)
  then have "card (set (map fst (services systemMap)) - set y) \<le> card (set (map fst (services systemMap)) - set visited)"
    by (intro card_mono) auto
  then show ?case by auto
qed

text \<open>
  \<open>findDependents\<close>: one pass over \<open>Object.entries(systemMap.services)\<close>, keeping
  the names whose \<open>depends_on\<close> is present and includes the service.
\<close>

definition findDependents :: "string \<Rightarrow> SystemMap \<Rightarrow> string list" where
  "findDependents serviceName systemMap =
     map fst (filter (\<lambda>(name, service).
                        case depends_on service of
                          None \<Rightarrow> False
                        | Some deps \<Rightarrow> serviceName \<in> set deps)
                     (services systemMap))"

text \<open>
  The breadth-first closure of \<open>analyzeImpact\<close>. \<open>enqueue_new\<close> is the inner
  \<open>for (const dep of deps)\<close> loop on the pair of the set \<open>allDependents\<close> and the
  queue; \<open>bfs_loop\<close> is the \<open>while (queue.length > 0)\<close> loop, \<open>queue.shift()\<close>
  taking the head.
\<close>

fun enqueue_new :: "string list \<Rightarrow> string list \<times> string list \<Rightarrow> string list \<times> string list" where
  "enqueue_new [] (allDependents, queue) = (allDependents, queue)"
| "enqueue_new (dep # deps) (allDependents, queue) =
     (if dep \<in> set allDependents then enqueue_new deps (allDependents, queue)
      else enqueue_new deps (Set_add dep allDependents, queue @ [dep]))"

function bfs_loop :: "SystemMap \<Rightarrow> string list \<Rightarrow> string list \<Rightarrow> string list" where
  "bfs_loop systemMap allDependents [] = allDependents"
| "bfs_loop systemMap allDependents (current # queue) =
     (case enqueue_new (findDependents current systemMap) (allDependents, queue) of
        (allDependents', queue') \<Rightarrow> bfs_loop systemMap allDependents' queue')"
  by pat_completeness auto

text \<open>
  Each round of the loop takes one name off the queue and puts on it exactly the names
  it adds to \<open>allDependents\<close>, all of them declared services, so the number of
  declared services outside \<open>allDependents\<close> plus the length of the queue decreases.
\<close>

lemma findDependents_declared:
  "set (findDependents s g) \<subseteq> set (map fst (services g))"
  by (auto simp: findDependents_def)

lemma enqueue_new_measure:
  assumes "finite K" "set deps \<subseteq> K"
  shows "card (K - set (fst (enqueue_new deps (allDependents, queue))))
           + length (snd (enqueue_new deps (allDependents, queue)))
         = card (K - set allDependents) + length queue"
  using assms(2)
proof (induction deps arbitrary: allDependents queue)
  case Nil
  show ?case by simp
next
  case (Cons dep deps)
  show ?case
  proof (cases "dep \<in> set allDependents")
    case True
    with Cons show ?thesis by simp
  next
    case False
    from Cons.prems have "dep \<in> K" by simp
    with False assms(1)
    have "card (K - insert dep (set allDependents)) + 1 = card (K - set allDependents)"
      by (metis Diff_insert DiffI One_nat_def Suc_eq_plus1 card_Suc_Diff1 finite_Diff)
    with False Cons show ?thesis by simp
  qed
qed

termination bfs_loop
proof (relation "measure (\<lambda>(g, allDependents, queue).
          card (set (map fst (services g)) - set allDependents) + length queue)", goal_cases)
  case 1
  show ?case by simp
next
  case (2 systemMap allDependents current queue x y)
  from enqueue_new_measure[of "set (map fst (services systemMap))" "findDependents current systemMap" allDependents queue]
       findDependents_declared[of current systemMap]
  have "card (set (map fst (services systemMap)) - set (fst (enqueue_new (findDependents current systemMap) (allDependents, queue))))
           + length (snd (enqueue_new (findDependents current systemMap) (allDependents, queue)))
         = card (set (map fst (services systemMap)) - set allDependents) + length queue"
    by simp
  with 2 have "card (set (map fst (services systemMap)) - set x) + length y
         = card (set (map fst (services systemMap)) - set allDependents) + length queue"
    by (metis fst_conv snd_conv)
  then show ?case by simp
qed

text \<open>
  \<open>analyzeImpact\<close>, with \<open>findServiceDependencies\<close> called on a fresh \<open>visited\<close>
  set (its default argument). \<open>Impact\<close> is the object it returns.
\<close>

record Impact =
  directDependents :: "string list"
  allDependents :: "string list"
  dependencies :: "string list"

definition analyzeImpact :: "string \<Rightarrow> SystemMap \<Rightarrow> Impact" where
  "analyzeImpact affectedService systemMap =
     (let direct = findDependents affectedService systemMap;
          deps = fst (findServiceDependencies affectedService systemMap [])
      in \<lparr>directDependents = direct,
          allDependents = bfs_loop systemMap (new_Set direct) direct,
          dependencies = deps\<rparr>)"

text \<open>
  \<open>getDefaultSystemMap\<close>, the map used when no file is found; the argument is the
  value of \<open>new Date().toISOString()\<close>.
\<close>

definition getDefaultSystemMap :: "string \<Rightarrow> SystemMap" where
  "getDefaultSystemMap now_iso =
     \<lparr>services =
        [(''TracePulse'',
          \<lparr>file' = Some ''packages/tracepulse/src/server.ts'',
           functions' = Some [''processEvents'', ''analyzeEvent''],
           depends_on = Some [''Redis'', ''GitHub'', ''Slack'', ''OpenAI''],
           endpoints = None,
           description = Some ''Main debugging service''\<rparr>),
         (''DebugQueue'',
          \<lparr>file' = Some ''packages/debug-queue/src/index.ts'',
           functions' = Some [''log'', ''error'', ''warn''],
           depends_on = Some [''TracePulse''],
           endpoints = None,
           description = Some ''Event logging library''\<rparr>)],
      version = Some ''1.0'',
      updated_at = Some now_iso\<rparr>"

subsection \<open>The depends-on relation of a graph\<close>

text \<open>
  The edges that the declared services' \<open>depends_on\<close> lists describe, as pairs
  (service, dependency). A service lies on a cycle when it reaches itself along one or
  more edges; a name is referenced when some declared service lists it.
\<close>

definition depends_edges :: "SystemMap \<Rightarrow> (string \<times> string) list" where
  "depends_edges systemMap =
     concat (map (\<lambda>(name, service).
                    case depends_on service of
                      None \<Rightarrow> []
                    | Some deps \<Rightarrow> map (Pair name) deps)
                 (services systemMap))"

definition on_cycle :: "string \<Rightarrow> SystemMap \<Rightarrow> bool" where
  "on_cycle s systemMap \<longleftrightarrow> (s, s) \<in> (set (depends_edges systemMap))\<^sup>+"

definition is_referenced :: "string \<Rightarrow> SystemMap \<Rightarrow> bool" where
  "is_referenced s systemMap \<longleftrightarrow> s \<in> set (map snd (depends_edges systemMap))"

definition is_declared :: "string \<Rightarrow> SystemMap \<Rightarrow> bool" where
  "is_declared s systemMap \<longleftrightarrow> s \<in> set (map fst (services systemMap))"

text \<open>
  The \<open>depends_on\<close> list that a property read finds for a name; it is empty for a
  name that is not declared and for a service without the attribute.
\<close>

definition deps_of :: "SystemMap \<Rightarrow> string \<Rightarrow> string list" where
  "deps_of g x =
     (case map_of (services g) x of
        None \<Rightarrow> []
      | Some svc \<Rightarrow> (case depends_on svc of None \<Rightarrow> [] | Some ds \<Rightarrow> ds))"

section \<open>Events, hypotheses and reports (types/index.ts)\<close>

text \<open>
  \<open>WebhookEvent\<close> as the zod schema validates it. The \<open>details\<close> record is kept as
  its entries; the only entry the analysis reads is \<open>service\<close>, which is passed on as
  a service name, so the entries are strings here. A field of an interface that
  another interface has too carries a prime.
\<close>

datatype Level = Debug | Info | Warn | Error | Critical

datatype Priority = Low | Medium | High

record Metadata =
  errorCode :: "string option"
  userId :: "string option"
  sessionId :: "string option"
  edgeDevice :: "string option"

record WebhookEvent =
  eventType :: string
  correlationId :: "string option"
  service :: "string option"
  level :: "Level option"
  priority :: "Priority option"
  timestamp :: "string option"
  details :: "(string \<times> string) list"
  metadata :: "Metadata option"

subsection \<open>JavaScript values\<close>

text \<open>
  A number is a rational, an infinity or NaN: the finite doubles are rationals, and the
  analysis never computes with a number beyond the sign of a difference and a test
  against zero, for which the rounding of doubles plays no part.
\<close>

datatype number = Finite rat | PosInf | NegInf | NaN

text \<open>
  A value that \<open>JSON.parse\<close> returns. The generator's response has type \<open>any\<close> in
  the source, and so has every property read from it; an absent property reads as
  undefined, which is \<open>None\<close> of \<open>js option\<close>.
\<close>

datatype js =
    JNull
  | JBool bool
  | JNum number
  | JStr string
  | JArr "js list"
  | JObj "(string \<times> js) list"

text \<open>
  Truthiness: undefined, null, false, zero, NaN and the empty string are falsy, every
  other value is truthy, an empty array and an empty object included. \<open>a || d\<close> is
  \<open>a\<close> when \<open>a\<close> is truthy and \<open>d\<close> otherwise.
\<close>

fun truthy :: "js option \<Rightarrow> bool" where
  "truthy None = False"
| "truthy (Some JNull) = False"
| "truthy (Some (JBool b)) = b"
| "truthy (Some (JNum n)) = (n \<noteq> Finite 0 \<and> n \<noteq> NaN)"
| "truthy (Some (JStr s)) = (s \<noteq> [])"
| "truthy (Some (JArr xs)) = True"
| "truthy (Some (JObj kvs)) = True"

definition js_or :: "js option \<Rightarrow> js \<Rightarrow> js" where
  "js_or a d = (case a of None \<Rightarrow> d | Some v \<Rightarrow> if truthy (Some v) then v else d)"

text \<open>
  A property read \<open>v.name\<close>, for the names that the analysis reads (\<open>hypotheses\<close>,
  \<open>title\<close>, \<open>description\<close>, \<open>confidence\<close>, \<open>evidence\<close>, \<open>suggestedActions\<close>,
  \<open>relatedServices\<close>, \<open>type\<close>, \<open>source\<close>, \<open>detail\<close>): no prototype defines one of
  them, so the read finds an own property of an object or undefined. On null the read
  raises a TypeError, which is the outer \<open>None\<close>.
\<close>

fun get :: "js \<Rightarrow> string \<Rightarrow> js option option" where
  "get JNull name = None"
| "get (JObj kvs) name = Some (map_of kvs name)"
| "get v name = Some None"

text \<open>
  \<open>v.map(f)\<close> calls \<open>Array.prototype.map\<close> when \<open>v\<close> is an array; for any other value
  \<open>v.map\<close> is not a function and the call raises a TypeError.
\<close>

fun as_array :: "js \<Rightarrow> js list option" where
  "as_array (JArr xs) = Some xs"
| "as_array v = None"

text \<open>
  Conversion to a primitive. An object that \<open>JSON.parse\<close> built has no callable
  property of its own, so its conversion uses the inherited \<open>toString\<close> unless an own
  property of that name hides it, and then the conversion raises a TypeError. An array
  converts by joining its elements, null as the empty text, and raises when the
  conversion of an element does. The other values always convert.
\<close>

fun unconvertible :: "js \<Rightarrow> bool" where
  "unconvertible (JObj kvs) = (''toString'' \<in> set (map fst kvs))"
| "unconvertible (JArr xs) = (\<exists>x \<in> set xs. unconvertible x)"
| "unconvertible v = False"

text \<open>
  \<open>ToNumber\<close>; \<open>None\<close> is the TypeError. The conversion of a string to a number is
  the platform's and is a parameter. A plain object converts to the text
  \<open>[object Object]\<close>, which is not a number. An array converts through its joined
  text: the empty array and \<open>[null]\<close> give the empty text, which is 0; a single
  element gives its own text; two or more elements give a text with a comma, which is
  not a number.
\<close>

fun ToNumber :: "(string \<Rightarrow> number) \<Rightarrow> js \<Rightarrow> number option" where
  "ToNumber s2n JNull = Some (Finite 0)"
| "ToNumber s2n (JBool b) = Some (Finite (if b then 1 else 0))"
| "ToNumber s2n (JNum n) = Some n"
| "ToNumber s2n (JStr s) = Some (s2n s)"
| "ToNumber s2n (JObj kvs) = (if unconvertible (JObj kvs) then None else Some NaN)"
| "ToNumber s2n (JArr []) = Some (Finite 0)"
| "ToNumber s2n (JArr [x]) =
     (if unconvertible x then None
      else (case x of
              JNull \<Rightarrow> Some (Finite 0)
            | JBool b \<Rightarrow> Some NaN
            | JObj kvs \<Rightarrow> Some NaN
            | _ \<Rightarrow> ToNumber s2n x))"
| "ToNumber s2n (JArr (x # y # zs)) =
     (if unconvertible (JArr (x # y # zs)) then None else Some NaN)"

text \<open>
  The difference of two numbers, as far as its sign goes, and the test that
  \<open>Array.prototype.sort\<close> applies to the comparator's result: a NaN counts as 0.
\<close>

fun minus_number :: "number \<Rightarrow> number \<Rightarrow> number" where
  "minus_number NaN y = NaN"
| "minus_number x NaN = NaN"
| "minus_number (Finite x) (Finite y) = Finite (x - y)"
| "minus_number (Finite x) PosInf = NegInf"
| "minus_number (Finite x) NegInf = PosInf"
| "minus_number PosInf PosInf = NaN"
| "minus_number PosInf y = PosInf"
| "minus_number NegInf NegInf = NaN"
| "minus_number NegInf y = NegInf"

fun positive :: "number \<Rightarrow> bool" where
  "positive (Finite q) = (0 < q)"
| "positive PosInf = True"
| "positive NegInf = False"
| "positive NaN = False"

subsection \<open>Hypotheses and reports\<close>

text \<open>
  \<open>HypothesisEvidence\<close> and \<open>Hypothesis\<close>. The interfaces give their fields string,
  number and array types, but the values stored in them are read from the generator's
  response without a check, so they are kept as the JavaScript values they are; only
  \<open>id\<close>, which the analysis builds itself, is a string.
\<close>

record HypothesisEvidence =
  type' :: js
  source :: js
  detail :: js
  confidence' :: js

record Hypothesis =
  id' :: string
  title :: js
  description' :: js
  confidence :: js
  evidence :: "HypothesisEvidence list"
  suggestedActions :: js
  relatedServices :: js

text \<open>
  The summary sentence of a report is kept as the values that \<open>generateSummary\<close>
  interpolates into its template, in the template's order; the rendering of a value
  as text is the platform's.
\<close>

record Summary =
  summary_eventType :: string
  summary_service :: string
  summary_title :: js
  summary_confidence :: js
  summary_count :: nat

text \<open>
  \<open>AnalysisReport\<close>. Its \<open>hypotheses\<close> field holds a reference to an array object: the
  address of the array in the store below.
\<close>

type_synonym addr = nat

record AnalysisReport =
  correlationId' :: string
  eventType' :: string
  timestamp' :: string
  hypotheses :: addr
  affectedServices :: "string list"
  summary :: Summary

subsection \<open>The \<open>||\<close> operator on an optional string\<close>

text \<open>
  For the optional string fields of an event: \<open>a || d\<close> is \<open>d\<close> when \<open>a\<close> is absent
  or the empty string.
\<close>

definition or_string :: "string option \<Rightarrow> string \<Rightarrow> string" where
  "or_string a d = (case a of None \<Rightarrow> d | Some s \<Rightarrow> if s = [] then d else s)"

subsection \<open>The state of a run\<close>

text \<open>
  What a run does besides returning values: the log entries it writes and the calls it
  makes, in order, and the arrays of hypotheses it allocates. An array that is sorted
  in place is one cell of the store, and every reference to it sees the change.
\<close>

datatype action =
    Log_info string
  | Log_error string
  | Call_getSystemMap
  | Call_analyzeImpact string
  | Call_getRecentDiffs string
  | Call_generator

record state =
  trace :: "action list"
  store :: "Hypothesis list list"

definition emit :: "action \<Rightarrow> state \<Rightarrow> state" where
  "emit a st = st\<lparr>trace := trace st @ [a]\<rparr>"

definition new_array :: "Hypothesis list \<Rightarrow> state \<Rightarrow> addr \<times> state" where
  "new_array xs st = (length (store st), st\<lparr>store := store st @ [xs]\<rparr>)"

definition read_array :: "addr \<Rightarrow> state \<Rightarrow> Hypothesis list" where
  "read_array a st = (if a < length (store st) then store st ! a else [])"

definition write_array :: "addr \<Rightarrow> Hypothesis list \<Rightarrow> state \<Rightarrow> state" where
  "write_array a xs st = st\<lparr>store := (store st)[a := xs]\<rparr>"

definition initial_state :: state where
  "initial_state = \<lparr>trace = [], store = []\<rparr>"

section \<open>The analysis (services/ai.ts)\<close>

subsection \<open>What the analysis receives from outside\<close>

text \<open>
  The reply of the hypothesis generator, as far as \<open>generateHypotheses\<close> tells replies
  apart: the call raises (no API key, network failure, timeout); the message has no
  content, and \<open>'{}'\<close> is parsed in its place; \<open>JSON.parse\<close> raises on the content; or
  the content parses to a value, of any shape.
\<close>

datatype generator_reply =
    Throws
  | No_content
  | Unparseable
  | Parsed js

record AnalysisContext =
  relatedEvents :: "WebhookEvent list"
  systemMap :: SystemMap
  environment :: "string option"
  recentDiffs :: "string list option"

text \<open>
  The text that \<open>buildSystemContext\<close> renders, kept as the values it interpolates, in
  the order of the template.
\<close>

record SystemContext =
  primary_eventType :: string
  primary_service :: string
  primary_errorCode :: string
  primary_timestamp :: "string option"
  context_environment :: string
  event_details :: "(string \<times> string) list"
  relatedEventsSummary :: "(string option \<times> string \<times> string option \<times> Level option) list"
  impact_dependencies :: "string list"
  impact_directDependents :: "string list"
  impact_allDependents :: "string list"
  recent_changes :: "string list"

text \<open>
  The collaborators of one run: the map that \<open>getSystemMap\<close> resolves to, the
  summaries that \<open>getRecentDiffs\<close> resolves to (it catches its own errors and returns
  an empty list), the generator, the clock (\<open>Date.now()\<close> and
  \<open>new Date().toISOString()\<close>), and the platform's conversion of a string to a
  number.
\<close>

record world =
  getSystemMap :: SystemMap
  getRecentDiffs :: "string \<Rightarrow> string list"
  generator :: "SystemContext \<Rightarrow> generator_reply"
  Date_now :: nat
  Date_iso :: string
  StringToNumber :: "string \<Rightarrow> number"

subsection \<open>Hypothesis ids\<close>

fun show_nat :: "nat \<Rightarrow> string" where
  "show_nat n =
     (if n < 10 then [''0123456789'' ! n]
      else show_nat (n div 10) @ [''0123456789'' ! (n mod 10)])"

definition hypothesis_id :: "nat \<Rightarrow> nat \<Rightarrow> string" where
  "hypothesis_id now index = ''hyp-'' @ show_nat now @ ''-'' @ show_nat index"

subsection \<open>\<open>Array.prototype.sort\<close>\<close>

text \<open>
  \<open>sort\<close> with a comparator is stable: it puts \<open>a\<close> after \<open>b\<close> only when the
  comparator is positive on \<open>(a, b)\<close>, and elements that compare equal keep their
  order. The model inserts each element in front of the sorted rest of the array. A
  comparator that raises ends the sort with its error, which is \<open>None\<close>; an array of
  two or more elements has every element compared at least once. For a comparator
  that is not consistent the order of the result is left to the engine; the order of
  the model is one such order.
\<close>

fun Array_insert :: "('a \<Rightarrow> 'a \<Rightarrow> number option) \<Rightarrow> 'a \<Rightarrow> 'a list \<Rightarrow> 'a list option" where
  "Array_insert compareFn a [] = Some [a]"
| "Array_insert compareFn a (b # bs) =
     (case compareFn a b of
        None \<Rightarrow> None
      | Some v \<Rightarrow>
          if positive v then map_option (Cons b) (Array_insert compareFn a bs)
          else Some (a # b # bs))"

fun Array_sort :: "('a \<Rightarrow> 'a \<Rightarrow> number option) \<Rightarrow> 'a list \<Rightarrow> 'a list option" where
  "Array_sort compareFn [] = Some []"
| "Array_sort compareFn (a # as) =
     (case Array_sort compareFn as of
        None \<Rightarrow> None
      | Some sorted_rest \<Rightarrow> Array_insert compareFn a sorted_rest)"

subsection \<open>Generating hypotheses\<close>

text \<open>\<open>getFallbackHypotheses\<close>; the argument is the value of \<open>Date.now()\<close>.\<close>

definition getFallbackHypotheses :: "nat \<Rightarrow> Hypothesis list" where
  "getFallbackHypotheses now =
     [\<lparr>id' = hypothesis_id now 0,
       title = JStr ''Service Dependency Failure'',
       description' = JStr ''The failure appears to be related to a service dependency issue based on the error pattern.'',
       confidence = JNum (Finite 60),
       evidence =
         [\<lparr>type' = JStr ''log'',
           source = JStr ''Event Analysis'',
           detail = JStr ''Critical error detected in service communication'',
           confidence' = JNum (Finite 70)\<rparr>],
       suggestedActions =
         JArr [JStr ''Check service health endpoints'',
               JStr ''Review recent deployments'',
               JStr ''Examine service logs for connection errors''],
       relatedServices = JArr []\<rparr>]"

text \<open>
  The two callbacks of \<open>generateHypotheses\<close>: the inner one maps an element \<open>e\<close> of
  \<open>h.evidence\<close>, the outer one maps an element \<open>h\<close> of \<open>result.hypotheses\<close> and its
  index. Both take a value of type \<open>any\<close>. A callback raises when its argument is
  null, and the outer one raises when \<open>h.evidence\<close> is truthy and not an array or
  when the inner one raises; \<open>None\<close> is the TypeError.
\<close>

definition map_evidence :: "js \<Rightarrow> HypothesisEvidence option" where
  "map_evidence e =
     (case (get e ''type'', get e ''source'', get e ''detail'', get e ''confidence'') of
        (Some e_type, Some e_source, Some e_detail, Some e_confidence) \<Rightarrow>
          Some \<lparr>type' = js_or e_type (JStr ''log''),
                source = js_or e_source (JStr ''unknown''),
                detail = js_or e_detail (JStr []),
                confidence' = js_or e_confidence (JNum (Finite 50))\<rparr>
      | _ \<Rightarrow> None)"

definition map_hypothesis :: "nat \<Rightarrow> nat \<Rightarrow> js \<Rightarrow> Hypothesis option" where
  "map_hypothesis now index h =
     (case (get h ''title'', get h ''description'', get h ''confidence'', get h ''evidence'',
            get h ''suggestedActions'', get h ''relatedServices'') of
        (Some h_title, Some h_description, Some h_confidence, Some h_evidence,
         Some h_suggestedActions, Some h_relatedServices) \<Rightarrow>
          (case as_array (js_or h_evidence (JArr [])) of
             None \<Rightarrow> None
           | Some es \<Rightarrow>
               (case those (map map_evidence es) of
                  None \<Rightarrow> None
                | Some mapped \<Rightarrow>
                    Some \<lparr>id' = hypothesis_id now index,
                          title = js_or h_title (JStr ''Unknown Issue''),
                          description' = js_or h_description (JStr []),
                          confidence = js_or h_confidence (JNum (Finite 50)),
                          evidence = mapped,
                          suggestedActions = js_or h_suggestedActions (JArr []),
                          relatedServices = js_or h_relatedServices (JArr [])\<rparr>))
      | _ \<Rightarrow> None)"

text \<open>
  The rest of the \<open>try\<close> block on the parsed value \<open>result\<close>: it reads
  \<open>result.hypotheses || []\<close> and maps it. It raises when \<open>result\<close> is null, when
  \<open>result.hypotheses\<close> is truthy and not an array, and when the callback raises.
\<close>

definition map_hypotheses :: "nat \<Rightarrow> js \<Rightarrow> Hypothesis list option" where
  "map_hypotheses now result =
     (case get result ''hypotheses'' of
        None \<Rightarrow> None
      | Some result_hypotheses \<Rightarrow>
          (case as_array (js_or result_hypotheses (JArr [])) of
             None \<Rightarrow> None
           | Some hs \<Rightarrow>
               those (map (\<lambda>(index, h). map_hypothesis now index h) (enumerate 0 hs))))"

text \<open>
  What the \<open>try\<close> block of \<open>generateHypotheses\<close> returns, \<open>None\<close> when it raises, and
  the array that \<open>generateHypotheses\<close> resolves to, before it is allocated: the mapped
  hypotheses when the block completes, the fallback when it raises.
\<close>

definition attempt :: "nat \<Rightarrow> generator_reply \<Rightarrow> Hypothesis list option" where
  "attempt now reply =
     (case reply of
        Throws \<Rightarrow> None
      | Unparseable \<Rightarrow> None
      | No_content \<Rightarrow> map_hypotheses now (JObj [])
      | Parsed result \<Rightarrow> map_hypotheses now result)"

definition raises :: "nat \<Rightarrow> generator_reply \<Rightarrow> bool" where
  "raises now reply \<longleftrightarrow> attempt now reply = None"

definition generated :: "nat \<Rightarrow> generator_reply \<Rightarrow> Hypothesis list" where
  "generated now reply =
     (case attempt now reply of
        None \<Rightarrow> getFallbackHypotheses now
      | Some hs \<Rightarrow> hs)"

definition generateHypotheses :: "world \<Rightarrow> SystemContext \<Rightarrow> state \<Rightarrow> addr \<times> state" where
  "generateHypotheses w context st =
     (let st1 = emit Call_generator st;
          reply = generator w context
      in if raises (Date_now w) reply
         then new_array (generated (Date_now w) reply)
                (emit (Log_error ''AI_HYPOTHESIS_GENERATION_ERROR'') st1)
         else new_array (generated (Date_now w) reply) st1)"

subsection \<open>Building the report\<close>

definition buildSystemContext ::
    "WebhookEvent \<Rightarrow> AnalysisContext \<Rightarrow> Impact \<Rightarrow> string list \<Rightarrow> SystemContext" where
  "buildSystemContext event context impact changes =
     \<lparr>primary_eventType = eventType event,
      primary_service = or_string (service event) ''Unknown'',
      primary_errorCode =
        or_string (case metadata event of None \<Rightarrow> None | Some m \<Rightarrow> errorCode m) ''N/A'',
      primary_timestamp = timestamp event,
      context_environment = or_string (environment context) ''Unknown'',
      event_details = details event,
      relatedEventsSummary =
        map (\<lambda>e. (timestamp e, eventType e, service e, level e)) (relatedEvents context),
      impact_dependencies = dependencies impact,
      impact_directDependents = directDependents impact,
      impact_allDependents = allDependents impact,
      recent_changes = changes\<rparr>"

text \<open>
  The comparator of \<open>generateSummary\<close>, \<open>(a, b) => b.confidence - a.confidence\<close>:
  both operands are converted to numbers, and the conversion of either may raise.
\<close>

definition by_confidence :: "(string \<Rightarrow> number) \<Rightarrow> Hypothesis \<Rightarrow> Hypothesis \<Rightarrow> number option" where
  "by_confidence s2n a b =
     (case (ToNumber s2n (confidence b), ToNumber s2n (confidence a)) of
        (Some nb, Some na) \<Rightarrow> Some (minus_number nb na)
      | _ \<Rightarrow> None)"

text \<open>
  \<open>generateSummary\<close> sorts the array it is given in place and reads the first element
  of the sorted array; \<open>topHypothesis\<close> is undefined when the array is empty. It raises
  when the comparator raises, and when the template cannot render the title or the
  confidence of the top hypothesis as text; \<open>None\<close> is the TypeError. After a sort that
  raised, the order of the array is the engine's; the model leaves the array as it was.
\<close>

definition generateSummary ::
    "world \<Rightarrow> WebhookEvent \<Rightarrow> addr \<Rightarrow> state \<Rightarrow> Summary option \<times> state" where
  "generateSummary w event hyps st =
     (case Array_sort (by_confidence (StringToNumber w)) (read_array hyps st) of
        None \<Rightarrow> (None, st)
      | Some sorted_hyps \<Rightarrow>
          (let st1 = write_array hyps sorted_hyps st;
               topHypothesis = (case read_array hyps st1 of [] \<Rightarrow> None | h # _ \<Rightarrow> Some h);
               top_title = js_or (map_option title topHypothesis) (JStr ''Unknown'');
               top_confidence = js_or (map_option confidence topHypothesis) (JNum (Finite 0))
           in if unconvertible top_title \<or> unconvertible top_confidence then (None, st1)
              else (Some \<lparr>summary_eventType = eventType event,
                          summary_service = or_string (service event) ''unknown service'',
                          summary_title = top_title,
                          summary_confidence = top_confidence,
                          summary_count = length (read_array hyps st1)\<rparr>,
                    st1)))"

text \<open>
  \<open>analyzeEvent\<close>. The report holds the reference that \<open>generateHypotheses\<close>
  returned; \<open>generateSummary\<close> is called on the same reference. With the event and
  the map typed as above, \<open>generateSummary\<close> is the only statement of the \<open>try\<close>
  block that can raise; the \<open>catch\<close> branch then logs the error and returns null.
\<close>

definition affected_service :: "WebhookEvent \<Rightarrow> string" where
  "affected_service event =
     or_string (service event) (or_string (map_of (details event) ''service'') ''Unknown'')"

definition analyzeEvent ::
    "world \<Rightarrow> WebhookEvent \<Rightarrow> AnalysisContext \<Rightarrow> state \<Rightarrow> AnalysisReport option \<times> state" where
  "analyzeEvent w event context st =
     (let st1 = emit (Log_info ''AI_ANALYSIS_START'') st;
          affectedService = affected_service event;
          impact = analyzeImpact affectedService (systemMap context);
          st2 = emit (Call_analyzeImpact affectedService) st1;
          changes = getRecentDiffs w affectedService;
          st3 = emit (Call_getRecentDiffs affectedService) st2;
          systemContext = buildSystemContext event context impact changes;
          (hyps, st4) = generateHypotheses w systemContext st3;
          (sentence, st5) = generateSummary w event hyps st4
      in case sentence of
           None \<Rightarrow> (None, emit (Log_error ''AI_ANALYSIS_ERROR'') st5)
         | Some rendered \<Rightarrow>
             (Some \<lparr>correlationId' = or_string (correlationId event) ''unknown'',
                    eventType' = eventType event,
                    timestamp' = Date_iso w,
                    hypotheses = hyps,
                    affectedServices = affectedService # allDependents impact,
                    summary = rendered\<rparr>,
              emit (Log_info ''AI_ANALYSIS_COMPLETE'') st5))"

section \<open>The event processor (services/eventProcessor.ts)\<close>

definition is_critical :: "WebhookEvent \<Rightarrow> bool" where
  "is_critical e \<longleftrightarrow>
     priority e = Some High \<or> level e = Some Error \<or> level e = Some Critical"

text \<open>
  \<open>processCorrelatedEvents\<close>. The source returns nothing and logs the report; the
  model also returns the value of its local \<open>report\<close>, which is absent when the group
  is skipped.
\<close>

definition processCorrelatedEvents ::
    "world \<Rightarrow> string \<Rightarrow> WebhookEvent list \<Rightarrow> string option \<Rightarrow> state
       \<Rightarrow> AnalysisReport option \<times> state" where
  "processCorrelatedEvents w cid events env st =
     (case filter is_critical events of
        [] \<Rightarrow> (None, emit (Log_info ''NO_CRITICAL_EVENTS'') st)
      | first # others \<Rightarrow>
          (let st1 = emit (Log_info ''ANALYZING_CRITICAL_EVENTS'') st;
               st2 = emit Call_getSystemMap st1;
               (report, st3) =
                 analyzeEvent w first
                   \<lparr>relatedEvents = events, systemMap = getSystemMap w, environment = env,
                    recentDiffs = None\<rparr> st2
           in case report of
                None \<Rightarrow> (None, st3)
              | Some r \<Rightarrow> (Some r, emit (Log_info ''REPORT_GENERATED'') st3)))"

text \<open>
  \<open>processEvents\<close>: the \<open>Map\<close> from correlation id to the events of the group keeps
  its keys in insertion order; \<open>Map_push\<close> is the body of the grouping loop, and
  \<open>process_groups\<close> the loop over the groups, which collects the reports.
\<close>

definition correlation_key :: "WebhookEvent \<Rightarrow> string" where
  "correlation_key event = or_string (correlationId event) ''uncorrelated''"

fun Map_push ::
    "string \<Rightarrow> WebhookEvent \<Rightarrow> (string \<times> WebhookEvent list) list
       \<Rightarrow> (string \<times> WebhookEvent list) list" where
  "Map_push k e [] = [(k, [e])]"
| "Map_push k e ((k', es) # rest) =
     (if k' = k then (k', es @ [e]) # rest else (k', es) # Map_push k e rest)"

definition group_by_correlation :: "WebhookEvent list \<Rightarrow> (string \<times> WebhookEvent list) list" where
  "group_by_correlation events =
     fold (\<lambda>event groups. Map_push (correlation_key event) event groups) events []"

fun process_groups ::
    "world \<Rightarrow> (string \<times> WebhookEvent list) list \<Rightarrow> string option \<Rightarrow> state
       \<Rightarrow> AnalysisReport list \<times> state" where
  "process_groups w [] env st = ([], st)"
| "process_groups w ((cid, es) # rest) env st =
     (case processCorrelatedEvents w cid es env st of
        (report, st1) \<Rightarrow>
          (case process_groups w rest env st1 of
             (reports, st2) \<Rightarrow> ((case report of None \<Rightarrow> [] | Some r \<Rightarrow> [r]) @ reports, st2)))"

definition processEvents ::
    "world \<Rightarrow> WebhookEvent list \<Rightarrow> string option \<Rightarrow> state \<Rightarrow> AnalysisReport list \<times> state" where
  "processEvents w events env st =
     process_groups w (group_by_correlation events) env
       (emit (Log_info ''EVENT_PROCESSING_START'') st)"

subsection \<open>Reading a result\<close>

text \<open>
  The hypothesis list of the report that a call returned: the array that the report's
  reference points to in the state the call ended in. It is absent when the call
  returned no report.
\<close>

definition report_hypotheses :: "AnalysisReport option \<times> state \<Rightarrow> Hypothesis list option" where
  "report_hypotheses result =
     map_option (\<lambda>r. read_array (hypotheses r) (snd result)) (fst result)"

text \<open>
  The context that \<open>analyzeEvent\<close> hands to the generator, and the context that
  \<open>processCorrelatedEvents\<close> hands to \<open>analyzeEvent\<close>.
\<close>

definition context_of :: "world \<Rightarrow> WebhookEvent \<Rightarrow> AnalysisContext \<Rightarrow> SystemContext" where
  "context_of w event context =
     buildSystemContext event context
       (analyzeImpact (affected_service event) (systemMap context))
       (getRecentDiffs w (affected_service event))"

definition group_context :: "world \<Rightarrow> WebhookEvent list \<Rightarrow> string option \<Rightarrow> AnalysisContext" where
  "group_context w events env =
     \<lparr>relatedEvents = events, systemMap = getSystemMap w, environment = env,
      recentDiffs = None\<rparr>"

subsection \<open>Ranking by confidence\<close>

text \<open>
  The order of the numbers, in which NaN compares with nothing, and what it is for a
  list of hypotheses to be in descending order of confidence: every hypothesis has a
  confidence that, as a number, is at least that of every later one.
\<close>

fun number_le :: "number \<Rightarrow> number \<Rightarrow> bool" where
  "number_le NaN y = False"
| "number_le x NaN = False"
| "number_le NegInf y = True"
| "number_le x PosInf = True"
| "number_le (Finite x) (Finite y) = (x \<le> y)"
| "number_le x y = False"

definition ranks_above :: "(string \<Rightarrow> number) \<Rightarrow> js \<Rightarrow> js \<Rightarrow> bool" where
  "ranks_above s2n a b =
     (case (ToNumber s2n a, ToNumber s2n b) of
        (Some x, Some y) \<Rightarrow> number_le y x
      | _ \<Rightarrow> False)"

definition descending :: "(string \<Rightarrow> number) \<Rightarrow> Hypothesis list \<Rightarrow> bool" where
  "descending s2n hs = sorted_wrt (\<lambda>a b. ranks_above s2n (confidence a) (confidence b)) hs"

text \<open>A confidence that is a number, as the \<open>Hypothesis\<close> interface types it.\<close>

fun is_number :: "js \<Rightarrow> bool" where
  "is_number (JNum n) = (n \<noteq> NaN)"
| "is_number v = False"

text \<open>
  A list of hypotheses on which \<open>generateSummary\<close> raises: two or more hypotheses of
  which one has a confidence that does not convert, or a first hypothesis whose title
  or confidence does not convert.
\<close>

definition unrankable :: "Hypothesis list \<Rightarrow> bool" where
  "unrankable hs \<longleftrightarrow> 2 \<le> length hs \<and> (\<exists>h \<in> set hs. unconvertible (confidence h))"

definition unrenderable :: "Hypothesis list \<Rightarrow> bool" where
  "unrenderable hs \<longleftrightarrow>
     (case hs of [] \<Rightarrow> False | h # rest \<Rightarrow> unconvertible (title h) \<or> unconvertible (confidence h))"

text \<open>
  The hypotheses of a list all convert: no title and no confidence among them raises
  when it is converted.
\<close>

definition convertible :: "Hypothesis list \<Rightarrow> bool" where
  "convertible hs \<longleftrightarrow>
     (\<forall>h \<in> set hs. \<not> unconvertible (title h) \<and> \<not> unconvertible (confidence h))"

subsection \<open>The hypotheses of a response\<close>


section \<open>Concrete inputs\<close>

subsection \<open>Graphs\<close>

definition service_on :: "string list \<Rightarrow> SystemMapService" where
  "service_on deps =
     \<lparr>file' = None, functions' = None, depends_on = Some deps, endpoints = None,
      description = None\<rparr>"

definition graph_of :: "(string \<times> string list) list \<Rightarrow> SystemMap" where
  "graph_of entries =
     \<lparr>services = map (\<lambda>(name, deps). (name, service_on deps)) entries,
      version = None, updated_at = None\<rparr>"

text \<open>The two-node cycle: \<open>a\<close> depends on \<open>b\<close> and \<open>b\<close> depends on \<open>a\<close>.\<close>

definition two_cycle :: "string \<Rightarrow> string \<Rightarrow> SystemMap" where
  "two_cycle a b = graph_of [(a, [b]), (b, [a])]"

text \<open>The chain of the specification's scenario: A depends on B, B depends on C.\<close>

definition chain3 :: SystemMap where
  "chain3 = graph_of [(''A'', [''B'']), (''B'', [''C'']), (''C'', [])]"

text \<open>A single service that lists itself.\<close>

definition self_loop :: SystemMap where
  "self_loop = graph_of [(''A'', [''A''])]"

subsection \<open>Events, generator replies and collaborators\<close>

definition event_of ::
    "string \<Rightarrow> string option \<Rightarrow> string option \<Rightarrow> Level \<Rightarrow> Priority \<Rightarrow> WebhookEvent" where
  "event_of ty cid srv lvl pri =
     \<lparr>eventType = ty, correlationId = cid, service = srv, level = Some lvl,
      priority = Some pri, timestamp = None, details = [], metadata = None\<rparr>"

text \<open>A payment failure in service \<open>A\<close>, and a routine event of the same transaction.\<close>

definition payment_failed :: WebhookEvent where
  "payment_failed = event_of ''PAYMENT_FAILED'' (Some ''tx-1'') (Some ''A'') Critical High"

definition cart_viewed :: WebhookEvent where
  "cart_viewed = event_of ''CART_VIEWED'' (Some ''tx-1'') (Some ''A'') Info Low"

text \<open>A critical event without a correlation id.\<close>

definition session_drop :: WebhookEvent where
  "session_drop = event_of ''SESSION_DROP'' None (Some ''B'') Error Medium"

text \<open>
  A conversion of strings to numbers for the replies below. It agrees with the
  platform's conversion on the empty string, on strings of decimal digits and on words
  of lower-case letters, which are not numbers.
\<close>

definition digit_of :: "char \<Rightarrow> nat option" where
  "digit_of c = map_of (zip ''0123456789'' [0, 1, 2, 3, 4, 5, 6, 7, 8, 9]) c"

fun digits_value :: "string \<Rightarrow> nat \<Rightarrow> nat option" where
  "digits_value [] acc = Some acc"
| "digits_value (c # cs) acc =
     (case digit_of c of None \<Rightarrow> None | Some d \<Rightarrow> digits_value cs (10 * acc + d))"

definition decimal_digits :: "string \<Rightarrow> number" where
  "decimal_digits s =
     (case digits_value s 0 of None \<Rightarrow> NaN | Some n \<Rightarrow> Finite (of_nat n))"

text \<open>A hypothesis object with a title and a confidence, as the generator returns it.\<close>

definition raw_hypothesis :: "string \<Rightarrow> js \<Rightarrow> js" where
  "raw_hypothesis t c = JObj [(''title'', JStr t), (''confidence'', c)]"

text \<open>
  A reply with four hypotheses: two of confidence 70, one of confidence 90, and one with
  an explicit confidence of 0 whose single evidence item has an explicit confidence of 0.
\<close>

definition zero_evidence :: js where
  "zero_evidence = JObj [(''source'', JStr ''logs''), (''confidence'', JNum (Finite 0))]"

definition dns_hypothesis :: js where
  "dns_hypothesis =
     JObj [(''title'', JStr ''dns''), (''confidence'', JNum (Finite 0)),
           (''evidence'', JArr [zero_evidence])]"

definition four_raw :: "js list" where
  "four_raw =
     [raw_hypothesis ''timeout'' (JNum (Finite 70)), raw_hypothesis ''deploy'' (JNum (Finite 90)),
      raw_hypothesis ''cache'' (JNum (Finite 70)), dns_hypothesis]"

definition four_hypotheses :: generator_reply where
  "four_hypotheses = Parsed (JObj [(''hypotheses'', JArr four_raw)])"

text \<open>
  A reply in which two of the four confidences are strings: the word \<open>low\<close> and the
  digits \<open>80\<close>.
\<close>

definition worded_raw :: "js list" where
  "worded_raw =
     [raw_hypothesis ''a'' (JStr ''low''), raw_hypothesis ''b'' (JNum (Finite 90)),
      raw_hypothesis ''c'' (JNum (Finite 95)), raw_hypothesis ''d'' (JStr ''80'')]"

definition worded_confidences :: generator_reply where
  "worded_confidences = Parsed (JObj [(''hypotheses'', JArr worded_raw)])"


text \<open>
  A reply whose only hypothesis has an object as its title, with an own property
  \<open>toString\<close>.
\<close>

definition unprintable_title :: generator_reply where
  "unprintable_title =
     Parsed (JObj [(''hypotheses'',
                    JArr [JObj [(''title'', JObj [(''toString'', JNum (Finite 1))]),
                                (''confidence'', JNum (Finite 80))]])])"

definition world_of :: "SystemMap \<Rightarrow> generator_reply \<Rightarrow> world" where
  "world_of g reply =
     \<lparr>getSystemMap = g, getRecentDiffs = (\<lambda>name. []), generator = (\<lambda>context. reply),
      Date_now = 1700000000000, Date_iso = ''2025-01-01T00:00:00.000Z'',
      StringToNumber = decimal_digits\<rparr>"

text \<open>
  The hypothesis that the mapping builds from a response object that has a title and a
  confidence and may have evidence.
\<close>

definition mapped :: "nat \<Rightarrow> nat \<Rightarrow> string \<Rightarrow> js \<Rightarrow> HypothesisEvidence list \<Rightarrow> Hypothesis" where
  "mapped now index t c evs =
     \<lparr>id' = hypothesis_id now index, title = JStr t, description' = JStr [],
      confidence = c, evidence = evs, suggestedActions = JArr [],
      relatedServices = JArr []\<rparr>"

definition mapped_zero_evidence :: HypothesisEvidence where
  "mapped_zero_evidence =
     \<lparr>type' = JStr ''log'', source = JStr ''logs'', detail = JStr [],
      confidence' = JNum (Finite 50)\<rparr>"

section \<open>Properties of the dependency graph\<close>

subsection \<open>Auxiliary facts\<close>

lemma depends_edges_iff:
  "(a, b) \<in> set (depends_edges g) \<longleftrightarrow>
     (\<exists>service deps. (a, service) \<in> set (services g) \<and> depends_on service = Some deps \<and> b \<in> set deps)"
proof
  assume "(a, b) \<in> set (depends_edges g)"
  then show "\<exists>service deps. (a, service) \<in> set (services g) \<and> depends_on service = Some deps \<and> b \<in> set deps"
    by (auto simp: depends_edges_def split: option.splits) (metis)
next
  assume "\<exists>service deps. (a, service) \<in> set (services g) \<and> depends_on service = Some deps \<and> b \<in> set deps"
  then obtain service deps where h: "(a, service) \<in> set (services g)" "depends_on service = Some deps" "b \<in> set deps"
    by blast
  then have "(a, b) \<in> set (case (a, service) of (name, service) \<Rightarrow>
                 case depends_on service of None \<Rightarrow> [] | Some deps \<Rightarrow> map (Pair name) deps)"
    by simp
  with h(1) show "(a, b) \<in> set (depends_edges g)"
    unfolding depends_edges_def set_concat set_map by blast
qed

lemma findDependents_iff:
  "a \<in> set (findDependents s g) \<longleftrightarrow> (a, s) \<in> set (depends_edges g)"
  by (auto simp: findDependents_def depends_edges_iff split: option.splits) force

lemma set_new_Set_aux: "set (fold Set_add xs acc) = set xs \<union> set acc"
  by (induction xs arbitrary: acc) auto

lemma set_new_Set [simp]: "set (new_Set xs) = set xs"
  by (simp add: new_Set_def set_new_Set_aux)

lemma distinct_Set_add: "distinct s \<Longrightarrow> distinct (Set_add x s)"
  by (simp add: Set_add_def)

lemma distinct_new_Set_aux: "distinct acc \<Longrightarrow> distinct (fold Set_add xs acc)"
  by (induction xs arbitrary: acc) (auto simp: distinct_Set_add)

lemma distinct_new_Set [simp]: "distinct (new_Set xs)"
  by (simp add: new_Set_def distinct_new_Set_aux)

lemma findServiceDependencies_sound:
  "\<forall>b \<in> set (fst (findServiceDependencies s g vis)). (s, b) \<in> (set (depends_edges g))\<^sup>+"
  "\<forall>b \<in> set (fst (findServiceDependencies_loop ds g acc vis)).
      b \<in> set acc \<or> (\<exists>d \<in> set ds. (d, b) \<in> (set (depends_edges g))\<^sup>+)"
proof (induction s g vis and ds g acc vis rule: findServiceDependencies_findServiceDependencies_loop.induct)
  case (1 serviceName systemMap visited)
  show ?case
  proof (cases "serviceName \<in> set visited")
    case True
    then show ?thesis by simp
  next
    case False
    show ?thesis
    proof (cases "map_of (services systemMap) serviceName")
      case None
      with False show ?thesis by simp
    next
      case (Some service)
      note look = this
      show ?thesis
      proof (cases "depends_on service")
        case None
        with look False show ?thesis by simp
      next
        case (Some deps)
        have edge: "(serviceName, d) \<in> set (depends_edges systemMap)" if "d \<in> set deps" for d
          using that look Some map_of_SomeD[OF look] by (auto simp: depends_edges_iff)
        from 1[OF False look Some]
        have ih: "\<forall>b\<in>set (fst (findServiceDependencies_loop deps systemMap deps (Set_add serviceName visited))).
                 b \<in> set deps \<or> (\<exists>d\<in>set deps. (d, b) \<in> (set (depends_edges systemMap))\<^sup>+)" .
        have "(serviceName, b) \<in> (set (depends_edges systemMap))\<^sup>+"
          if "b \<in> set (fst (findServiceDependencies_loop deps systemMap deps (Set_add serviceName visited)))" for b
        proof -
          from ih that consider "b \<in> set deps" | d where "d \<in> set deps" "(d, b) \<in> (set (depends_edges systemMap))\<^sup>+"
            by blast
          then show ?thesis
          proof cases
            case 1
            then show ?thesis using edge by blast
          next
            case 2
            then show ?thesis using edge by (meson trancl_into_trancl2)
          qed
        qed
        with False look Some show ?thesis
          by (simp split: prod.splits)
      qed
    qed
  qed
next
  case (2 systemMap dependencies visited)
  show ?case by simp
next
  case (3 dep rest systemMap dependencies visited)
  obtain found visited' where r: "findServiceDependencies dep systemMap visited = (found, visited')"
    by (cases "findServiceDependencies dep systemMap visited")
  from 3(1) r have a: "\<forall>b\<in>set found. (dep, b) \<in> (set (depends_edges systemMap))\<^sup>+" by simp
  from 3(2)[of found visited'] r
  have b: "\<forall>b\<in>set (fst (findServiceDependencies_loop rest systemMap (dependencies @ found) visited')).
       b \<in> set (dependencies @ found) \<or> (\<exists>d\<in>set rest. (d, b) \<in> (set (depends_edges systemMap))\<^sup>+)"
    by simp
  from a b r show ?case by auto
qed


lemma enqueue_new_seen:
  "set (fst (enqueue_new deps (seen, queue))) = set seen \<union> set deps"
  by (induction deps arbitrary: seen queue) auto

lemma enqueue_new_queue:
  "set (snd (enqueue_new deps (seen, queue))) \<subseteq> set queue \<union> set deps"
proof (induction deps arbitrary: seen queue)
  case Nil
  show ?case by simp
next
  case (Cons dep deps)
  show ?case
  proof (cases "dep \<in> set seen")
    case True
    with Cons[of seen queue] show ?thesis by auto
  next
    case False
    with Cons[of "Set_add dep seen" "queue @ [dep]"] show ?thesis by auto
  qed
qed

lemma enqueue_new_distinct:
  "distinct seen \<Longrightarrow> distinct (fst (enqueue_new deps (seen, queue)))"
  by (induction deps arbitrary: seen queue) (auto simp: Set_add_def)

lemma bfs_loop_distinct:
  "distinct seen \<Longrightarrow> distinct (bfs_loop g seen queue)"
proof (induction g seen queue rule: bfs_loop.induct)
  case (1 systemMap seen)
  then show ?case by simp
next
  case (2 systemMap seen current queue)
  obtain seen' queue' where r:
    "enqueue_new (findDependents current systemMap) (seen, queue) = (seen', queue')"
    by (cases "enqueue_new (findDependents current systemMap) (seen, queue)")
  from enqueue_new_distinct[OF 2(2), of "findDependents current systemMap" queue] r
  have "distinct seen'" by simp
  with 2(1)[of seen' queue'] r show ?case by simp
qed

lemma bfs_loop_sound:
  "set (bfs_loop g seen queue)
     \<subseteq> set seen \<union> {a. \<exists>c \<in> set queue. (a, c) \<in> (set (depends_edges g))\<^sup>+}"
proof (induction g seen queue rule: bfs_loop.induct)
  case (1 systemMap seen)
  show ?case by simp
next
  case (2 systemMap seen current queue)
  let ?E = "set (depends_edges systemMap)"
  obtain seen' queue' where r:
    "enqueue_new (findDependents current systemMap) (seen, queue) = (seen', queue')"
    by (cases "enqueue_new (findDependents current systemMap) (seen, queue)")
  from enqueue_new_seen[of "findDependents current systemMap" seen queue]
       enqueue_new_queue[of "findDependents current systemMap" seen queue] r
  have s1: "set seen' = set seen \<union> set (findDependents current systemMap)"
    and s2: "set queue' \<subseteq> set queue \<union> set (findDependents current systemMap)"
    by simp_all
  from 2[of seen' queue'] r
  have ih: "set (bfs_loop systemMap seen' queue') \<subseteq> set seen' \<union> {a. \<exists>c\<in>set queue'. (a, c) \<in> ?E\<^sup>+}"
    by simp
  have "a \<in> set seen \<or> (\<exists>c\<in>set (current # queue). (a, c) \<in> ?E\<^sup>+)"
    if "a \<in> set (bfs_loop systemMap seen' queue')" for a
  proof -
    from ih that consider "a \<in> set seen'" | c where "c \<in> set queue'" "(a, c) \<in> ?E\<^sup>+"
      by blast
    then show ?thesis
    proof cases
      case 1
      with s1 show ?thesis by (auto simp: findDependents_iff)
    next
      case 2
      with s2 consider "c \<in> set queue" | "(c, current) \<in> ?E" by (auto simp: findDependents_iff)
      then show ?thesis
      proof cases
        case 1
        with 2 show ?thesis by auto
      next
        case 2
        with \<open>(a, c) \<in> ?E\<^sup>+\<close> have "(a, current) \<in> ?E\<^sup>+" by (meson trancl_into_trancl)
        then show ?thesis by auto
      qed
    qed
  qed
  with r show ?case by auto
qed

lemma bfs_loop_superset: "set seen \<subseteq> set (bfs_loop g seen queue)"
proof (induction g seen queue rule: bfs_loop.induct)
  case (1 systemMap seen)
  show ?case by simp
next
  case (2 systemMap seen current queue)
  obtain seen' queue' where r:
    "enqueue_new (findDependents current systemMap) (seen, queue) = (seen', queue')"
    by (cases "enqueue_new (findDependents current systemMap) (seen, queue)")
  from enqueue_new_seen[of "findDependents current systemMap" seen queue] r
  have "set seen \<subseteq> set seen'" by simp
  with 2[of seen' queue'] r show ?case by auto
qed

lemma allDependents_sound:
  "set (allDependents (analyzeImpact s g)) \<subseteq> {a. (a, s) \<in> (set (depends_edges g))\<^sup>+}"
proof -
  have "set (allDependents (analyzeImpact s g))
          \<subseteq> set (findDependents s g)
             \<union> {a. \<exists>c \<in> set (findDependents s g). (a, c) \<in> (set (depends_edges g))\<^sup>+}"
    using bfs_loop_sound[of g "new_Set (findDependents s g)" "findDependents s g"]
    by (simp add: analyzeImpact_def Let_def)
  also have "\<dots> \<subseteq> {a. (a, s) \<in> (set (depends_edges g))\<^sup>+}"
    by (auto simp: findDependents_iff intro: trancl_into_trancl)
  finally show ?thesis .
qed

text \<open>
  The breadth-first search is complete: its result contains the direct dependents and
  is closed under \<open>findDependents\<close>, so it holds every service that reaches the
  affected one.
\<close>

lemma enqueue_new_queue_exact:
  "set (snd (enqueue_new deps (seen, queue))) = set queue \<union> (set deps - set seen)"
proof (induction deps arbitrary: seen queue)
  case Nil
  show ?case by simp
next
  case (Cons dep deps)
  show ?case
  proof (cases "dep \<in> set seen")
    case True
    with Cons[of seen queue] show ?thesis by auto
  next
    case False
    with Cons[of "Set_add dep seen" "queue @ [dep]"] show ?thesis by auto
  qed
qed

lemma bfs_loop_closed:
  assumes "set queue \<subseteq> set seen"
    and "\<forall>x \<in> set seen - set queue. set (findDependents x g) \<subseteq> set seen"
  shows "\<forall>x \<in> set (bfs_loop g seen queue). set (findDependents x g) \<subseteq> set (bfs_loop g seen queue)"
  using assms
proof (induction g seen queue rule: bfs_loop.induct)
  case (1 systemMap seen)
  then show ?case by simp
next
  case (2 systemMap seen current queue)
  obtain seen' queue' where r:
    "enqueue_new (findDependents current systemMap) (seen, queue) = (seen', queue')"
    by (cases "enqueue_new (findDependents current systemMap) (seen, queue)")
  from enqueue_new_seen[of "findDependents current systemMap" seen queue]
       enqueue_new_queue_exact[of "findDependents current systemMap" seen queue] r
  have s1: "set seen' = set seen \<union> set (findDependents current systemMap)"
    and s2: "set queue' = set queue \<union> (set (findDependents current systemMap) - set seen)"
    by simp_all
  have a: "set queue' \<subseteq> set seen'" using s1 s2 2(2) by auto
  have b: "\<forall>x \<in> set seen' - set queue'. set (findDependents x systemMap) \<subseteq> set seen'"
  proof
    fix x assume x: "x \<in> set seen' - set queue'"
    show "set (findDependents x systemMap) \<subseteq> set seen'"
    proof (cases "x = current")
      case True
      with s1 show ?thesis by auto
    next
      case False
      from x s1 s2 have "x \<in> set seen" "x \<notin> set queue" by auto
      with False have "x \<in> set seen - set (current # queue)" by simp
      with 2(3) have "set (findDependents x systemMap) \<subseteq> set seen" by blast
      with s1 show ?thesis by auto
    qed
  qed
  from 2(1)[OF r[symmetric] a b] r show ?case by simp
qed

lemma allDependents_exact:
  "set (allDependents (analyzeImpact s g)) = {a. (a, s) \<in> (set (depends_edges g))\<^sup>+}"
proof
  show "set (allDependents (analyzeImpact s g)) \<subseteq> {a. (a, s) \<in> (set (depends_edges g))\<^sup>+}"
    by (rule allDependents_sound)
next
  let ?R = "set (allDependents (analyzeImpact s g))"
  have R: "?R = set (bfs_loop g (new_Set (findDependents s g)) (findDependents s g))"
    by (simp add: analyzeImpact_def Let_def)
  have direct: "set (findDependents s g) \<subseteq> ?R"
    unfolding R using bfs_loop_superset[of "new_Set (findDependents s g)" g "findDependents s g"]
    by simp
  have closed: "\<forall>x \<in> ?R. set (findDependents x g) \<subseteq> ?R"
    unfolding R by (rule bfs_loop_closed) simp_all
  have "a \<in> ?R" if "(a, s) \<in> (set (depends_edges g))\<^sup>+" for a
    using that
  proof (induction rule: converse_trancl_induct)
    case (base y)
    with direct show ?case by (auto simp: findDependents_iff)
  next
    case (step y z)
    from step(1) have "y \<in> set (findDependents z g)" by (simp add: findDependents_iff)
    with closed step(3) show ?case by blast
  qed
  then show "{a. (a, s) \<in> (set (depends_edges g))\<^sup>+} \<subseteq> ?R" by blast
qed

text \<open>
  The depth-first search is complete at the top level. Every node that a call marks as
  visited has its \<open>depends_on\<close> list in the result of that call, and the nodes
  visited when the outermost call returns are closed under \<open>depends_on\<close>.
\<close>

lemma findServiceDependencies_cases:
  "findServiceDependencies x g V =
     (if x \<in> set V then ([], V)
      else if (\<exists>svc ds. map_of (services g) x = Some svc \<and> depends_on svc = Some ds)
      then (case findServiceDependencies_loop (deps_of g x) g (deps_of g x) (Set_add x V) of
              (acc, V') \<Rightarrow> (new_Set acc, V'))
      else ([], Set_add x V))"
  by (auto simp: deps_of_def split: option.splits)

lemma deps_of_Nil:
  "\<not> (\<exists>svc ds. map_of (services g) x = Some svc \<and> depends_on svc = Some ds) \<Longrightarrow> deps_of g x = []"
  by (auto simp: deps_of_def split: option.splits)

lemma findServiceDependencies_visited:
  "set V \<subseteq> set (snd (findServiceDependencies x g V)) \<and> x \<in> set (snd (findServiceDependencies x g V))"
  "set V \<subseteq> set (snd (findServiceDependencies_loop ds g acc V)) \<and>
   set ds \<subseteq> set (snd (findServiceDependencies_loop ds g acc V))"
proof (induction x g V and ds g acc V rule: findServiceDependencies_findServiceDependencies_loop.induct)
  case (1 x g V)
  show ?case
  proof (cases "x \<in> set V")
    case True
    then show ?thesis by simp
  next
    case False
    show ?thesis
    proof (cases "map_of (services g) x")
      case None
      with False show ?thesis by auto
    next
      case (Some svc)
      note look = this
      show ?thesis
      proof (cases "depends_on svc")
        case None
        with look False show ?thesis by auto
      next
        case (Some ds)
        from 1[OF False look Some] look Some False show ?thesis
          by (auto split: prod.splits)
      qed
    qed
  qed
next
  case (2 g acc V)
  show ?case by simp
next
  case (3 d rest g acc V)
  obtain found V1 where r: "findServiceDependencies d g V = (found, V1)"
    by (cases "findServiceDependencies d g V")
  from 3(1) r have a: "set V \<subseteq> set V1" "d \<in> set V1" by simp_all
  from 3(2)[OF r[symmetric]] r a show ?case by auto
qed


lemma findServiceDependencies_collects:
  "\<forall>y \<in> set (snd (findServiceDependencies x g V)) - set V.
      set (deps_of g y) \<subseteq> set (fst (findServiceDependencies x g V))"
  "set acc \<subseteq> set (fst (findServiceDependencies_loop ds g acc V)) \<and>
   (\<forall>y \<in> set (snd (findServiceDependencies_loop ds g acc V)) - set V.
      set (deps_of g y) \<subseteq> set (fst (findServiceDependencies_loop ds g acc V)))"
proof (induction x g V and ds g acc V rule: findServiceDependencies_findServiceDependencies_loop.induct)
  case (1 x g V)
  show ?case
  proof (cases "x \<in> set V")
    case True
    then show ?thesis by simp
  next
    case False
    show ?thesis
    proof (cases "\<exists>svc ds. map_of (services g) x = Some svc \<and> depends_on svc = Some ds")
      case no: False
      have res: "findServiceDependencies x g V = ([], Set_add x V)"
        using False no by (simp only: findServiceDependencies_cases if_False)
      from no have "deps_of g x = []" by (rule deps_of_Nil)
      then show ?thesis unfolding res by auto
    next
      case True
      then obtain svc ds where look: "map_of (services g) x = Some svc" "depends_on svc = Some ds"
        by blast
      then have d: "deps_of g x = ds" by (simp add: deps_of_def)
      obtain acc V' where r: "findServiceDependencies_loop ds g ds (Set_add x V) = (acc, V')"
        by (cases "findServiceDependencies_loop ds g ds (Set_add x V)")
      from 1[OF False look] r
      have ih: "set ds \<subseteq> set acc" "\<forall>y \<in> set V' - insert x (set V). set (deps_of g y) \<subseteq> set acc"
        by simp_all
      have res: "findServiceDependencies x g V = (new_Set acc, V')"
        using False True d r
        by (simp only: findServiceDependencies_cases if_False if_True prod.case)
      show ?thesis
        unfolding res using ih d by auto
    qed
  qed
next
  case (2 g acc V)
  show ?case by simp
next
  case (3 d rest g acc V)
  obtain found V1 where r: "findServiceDependencies d g V = (found, V1)"
    by (cases "findServiceDependencies d g V")
  obtain R V' where r2: "findServiceDependencies_loop rest g (acc @ found) V1 = (R, V')"
    by (cases "findServiceDependencies_loop rest g (acc @ found) V1")
  from 3(1) r have a: "\<forall>y \<in> set V1 - set V. set (deps_of g y) \<subseteq> set found" by simp
  from 3(2)[OF r[symmetric]] r2
  have b: "set (acc @ found) \<subseteq> set R" "\<forall>y \<in> set V' - set V1. set (deps_of g y) \<subseteq> set R"
    by simp_all
  have res: "findServiceDependencies_loop (d # rest) g acc V = (R, V')"
    using r r2 by simp
  have "set (deps_of g y) \<subseteq> set R" if "y \<in> set V' - set V" for y
  proof (cases "y \<in> set V1")
    case True
    with that a have "set (deps_of g y) \<subseteq> set found" by blast
    with b(1) show ?thesis by auto
  next
    case False
    with that b(2) show ?thesis by blast
  qed
  with b(1) show ?case
    unfolding res by auto
qed

lemma findServiceDependencies_closes:
  "(\<forall>y \<in> set V - S. set (deps_of g y) \<subseteq> set V) \<longrightarrow>
   (\<forall>y \<in> set (snd (findServiceDependencies x g V)) - S.
      set (deps_of g y) \<subseteq> set (snd (findServiceDependencies x g V)))"
  "(\<forall>y \<in> set V - S. set (deps_of g y) \<subseteq> set V) \<longrightarrow>
   (\<forall>y \<in> set (snd (findServiceDependencies_loop ds g acc V)) - S.
      set (deps_of g y) \<subseteq> set (snd (findServiceDependencies_loop ds g acc V)))"
proof (induction x g V and ds g acc V arbitrary: S and S rule: findServiceDependencies_findServiceDependencies_loop.induct)
  case (1 x g V)
  show ?case
  proof (cases "x \<in> set V")
    case True
    then show ?thesis by simp
  next
    case False
    show ?thesis
    proof (cases "\<exists>svc ds. map_of (services g) x = Some svc \<and> depends_on svc = Some ds")
      case no: False
      have res: "findServiceDependencies x g V = ([], Set_add x V)"
        using False no by (simp only: findServiceDependencies_cases if_False)
      from no have "deps_of g x = []" by (rule deps_of_Nil)
      then show ?thesis unfolding res by auto
    next
      case True
      then obtain svc ds where look: "map_of (services g) x = Some svc" "depends_on svc = Some ds"
        by blast
      then have d: "deps_of g x = ds" by (simp add: deps_of_def)
      obtain acc V' where r: "findServiceDependencies_loop ds g ds (Set_add x V) = (acc, V')"
        by (cases "findServiceDependencies_loop ds g ds (Set_add x V)")
      have res: "findServiceDependencies x g V = (new_Set acc, V')"
        using False True d r
        by (simp only: findServiceDependencies_cases if_False if_True prod.case)
      from findServiceDependencies_visited(2)[of "Set_add x V" ds g ds] r
      have vis: "insert x (set V) \<subseteq> set V'" "set ds \<subseteq> set V'" by simp_all
      show ?thesis
      proof
        assume cl: "\<forall>y \<in> set V - S. set (deps_of g y) \<subseteq> set V"
        then have "\<forall>y \<in> set (Set_add x V) - insert x S. set (deps_of g y) \<subseteq> set (Set_add x V)"
          by auto
        with 1[OF False look, of "insert x S"] r
        have "\<forall>y \<in> set V' - insert x S. set (deps_of g y) \<subseteq> set V'" by simp
        with vis d show "\<forall>y \<in> set (snd (findServiceDependencies x g V)) - S.
                 set (deps_of g y) \<subseteq> set (snd (findServiceDependencies x g V))"
          unfolding res by auto
      qed
    qed
  qed
next
  case (2 g acc V)
  show ?case by simp
next
  case (3 d rest g acc V)
  obtain found V1 where r: "findServiceDependencies d g V = (found, V1)"
    by (cases "findServiceDependencies d g V")
  obtain R V' where r2: "findServiceDependencies_loop rest g (acc @ found) V1 = (R, V')"
    by (cases "findServiceDependencies_loop rest g (acc @ found) V1")
  have res: "findServiceDependencies_loop (d # rest) g acc V = (R, V')"
    using r r2 by simp
  show ?case
  proof
    assume cl: "\<forall>y \<in> set V - S. set (deps_of g y) \<subseteq> set V"
    with 3(1)[of S] r have "\<forall>y \<in> set V1 - S. set (deps_of g y) \<subseteq> set V1" by simp
    with 3(2)[OF r[symmetric], of S] r2
    have "\<forall>y \<in> set V' - S. set (deps_of g y) \<subseteq> set V'" by simp
    then show "\<forall>y \<in> set (snd (findServiceDependencies_loop (d # rest) g acc V)) - S.
                 set (deps_of g y) \<subseteq> set (snd (findServiceDependencies_loop (d # rest) g acc V))"
      unfolding res by simp
  qed
qed


lemma deps_of_edges:
  assumes "distinct (map fst (services g))"
  shows "b \<in> set (deps_of g a) \<longleftrightarrow> (a, b) \<in> set (depends_edges g)"
proof
  assume "b \<in> set (deps_of g a)"
  then have "\<exists>svc ds. map_of (services g) a = Some svc \<and> depends_on svc = Some ds \<and> b \<in> set ds"
    by (cases "map_of (services g) a"; cases "depends_on (the (map_of (services g) a))")
       (simp_all add: deps_of_def)
  then obtain svc ds where "map_of (services g) a = Some svc" "depends_on svc = Some ds" "b \<in> set ds"
    by blast
  then show "(a, b) \<in> set (depends_edges g)"
    using map_of_SomeD by (fastforce simp: depends_edges_iff)
next
  assume "(a, b) \<in> set (depends_edges g)"
  then obtain svc ds where "(a, svc) \<in> set (services g)" "depends_on svc = Some ds" "b \<in> set ds"
    by (auto simp: depends_edges_iff)
  with assms show "b \<in> set (deps_of g a)"
    by (simp add: deps_of_def)
qed

lemma findServiceDependencies_complete:
  assumes "distinct (map fst (services g))"
    and "(s, b) \<in> (set (depends_edges g))\<^sup>+"
  shows "b \<in> set (fst (findServiceDependencies s g []))"
proof -
  let ?R = "set (fst (findServiceDependencies s g []))"
  let ?V = "set (snd (findServiceDependencies s g []))"
  have start: "s \<in> ?V" using findServiceDependencies_visited(1)[of "[]" s g] by simp
  have closed: "\<forall>y \<in> ?V. set (deps_of g y) \<subseteq> ?V"
    using findServiceDependencies_closes(1)[of "[]" "{}" g s] by simp
  have collects: "\<forall>y \<in> ?V. set (deps_of g y) \<subseteq> ?R"
    using findServiceDependencies_collects(1)[of s g "[]"] by simp
  have reach: "y \<in> ?V" if "(s, y) \<in> (set (depends_edges g))\<^sup>*" for y
    using that
  proof (induction rule: rtrancl_induct)
    case base
    show ?case by (rule start)
  next
    case (step y z)
    from step(2) have "z \<in> set (deps_of g y)" by (simp add: deps_of_edges[OF assms(1)])
    with closed step(3) show ?case by blast
  qed
  from assms(2) obtain y where y: "(s, y) \<in> (set (depends_edges g))\<^sup>*" "(y, b) \<in> set (depends_edges g)"
    by (meson tranclD2)
  from y(2) have "b \<in> set (deps_of g y)" by (simp add: deps_of_edges[OF assms(1)])
  with collects reach[OF y(1)] show ?thesis by blast
qed

lemma dependencies_exact:
  assumes "distinct (map fst (services g))"
  shows "set (dependencies (analyzeImpact s g)) = {b. (s, b) \<in> (set (depends_edges g))\<^sup>+}"
proof
  show "set (dependencies (analyzeImpact s g)) \<subseteq> {b. (s, b) \<in> (set (depends_edges g))\<^sup>+}"
    using findServiceDependencies_sound(1)[of s g "[]"]
    by (auto simp: analyzeImpact_def Let_def)
next
  show "{b. (s, b) \<in> (set (depends_edges g))\<^sup>+} \<subseteq> set (dependencies (analyzeImpact s g))"
    using findServiceDependencies_complete[OF assms, of s]
    by (auto simp: analyzeImpact_def Let_def)
qed

text \<open>
  The specification's scenario: in the chain A, B, C the impact of \<open>B\<close> is the
  dependency \<open>C\<close> and the dependent \<open>A\<close>.
\<close>

lemma impact_chain3:
  "analyzeImpact ''B'' chain3
     = \<lparr>directDependents = [''A''], allDependents = [''A''], dependencies = [''C'']\<rparr>"
  by (simp add: analyzeImpact_def Let_def chain3_def graph_of_def service_on_def
        findDependents_def new_Set_def Set_add_def)

subsection \<open>The impact result\<close>

text \<open>
  Claim C1, as amended. For every dependency graph and every service id \<open>s\<close>, each of
  the three sets of the impact result (transitive dependencies, direct dependents, all
  transitive dependents) contains \<open>s\<close> only when \<open>s\<close> lies on a cycle of the
  depends-on relation: a service that is not on a cycle is in none of them. A service
  on a cycle is among its own transitive dependents, and, the names of the declared
  services being distinct, among its own transitive dependencies.
\<close>

theorem impact_self_iff_on_cycle:
  "(s \<in> set (dependencies (analyzeImpact s g)) \<longrightarrow> on_cycle s g) \<and>
   (s \<in> set (directDependents (analyzeImpact s g)) \<longrightarrow> on_cycle s g) \<and>
   (s \<in> set (allDependents (analyzeImpact s g)) \<longleftrightarrow> on_cycle s g) \<and>
   (distinct (map fst (services g))
      \<longrightarrow> (s \<in> set (dependencies (analyzeImpact s g)) \<longleftrightarrow> on_cycle s g))"
proof -
  have 1: "s \<in> set (dependencies (analyzeImpact s g)) \<longrightarrow> on_cycle s g"
    using findServiceDependencies_sound(1)[of s g "[]"]
    by (auto simp: analyzeImpact_def Let_def on_cycle_def)
  have 2: "s \<in> set (directDependents (analyzeImpact s g)) \<longrightarrow> on_cycle s g"
    by (auto simp: analyzeImpact_def Let_def on_cycle_def findDependents_iff)
  have 3: "s \<in> set (allDependents (analyzeImpact s g)) \<longleftrightarrow> on_cycle s g"
    by (simp add: allDependents_exact on_cycle_def)
  have 4: "s \<in> set (dependencies (analyzeImpact s g)) \<longleftrightarrow> on_cycle s g"
    if "distinct (map fst (services g))"
    by (simp add: dependencies_exact[OF that] on_cycle_def)
  from 1 2 3 4 show ?thesis by blast
qed

theorem impact_self_iff_on_cycle_witness:
  "\<not> on_cycle ''B'' chain3 \<and>
   ''B'' \<notin> set (dependencies (analyzeImpact ''B'' chain3)) \<and>
   ''B'' \<notin> set (directDependents (analyzeImpact ''B'' chain3)) \<and>
   ''B'' \<notin> set (allDependents (analyzeImpact ''B'' chain3)) \<and>
   distinct (map fst (services (two_cycle ''A'' ''B''))) \<and>
   on_cycle ''A'' (two_cycle ''A'' ''B'') \<and>
   ''A'' \<in> set (dependencies (analyzeImpact ''A'' (two_cycle ''A'' ''B''))) \<and>
   ''A'' \<in> set (allDependents (analyzeImpact ''A'' (two_cycle ''A'' ''B'')))"
proof -
  have h: "\<not> on_cycle ''B'' chain3"
    unfolding on_cycle_def chain3_def graph_of_def service_on_def depends_edges_def
    by code_simp
  have d: "distinct (map fst (services (two_cycle ''A'' ''B'')))"
    by (simp add: two_cycle_def graph_of_def)
  have c: "on_cycle ''A'' (two_cycle ''A'' ''B'')"
    unfolding on_cycle_def two_cycle_def graph_of_def service_on_def depends_edges_def
    by code_simp
  from impact_self_iff_on_cycle [of "''B''" chain3]
       impact_self_iff_on_cycle [of "''A''" "two_cycle ''A'' ''B''"] h d c
  show ?thesis by blast
qed

text \<open>
  Claim C1 as the specification states it fails on cycles: on the two-node cycle the
  start node \<open>A\<close> is among its own transitive dependencies and among its own
  transitive dependents, and a service that lists itself is its own direct dependent.
\<close>

theorem impact_contains_self_counterexample:
  "''A'' \<in> set (dependencies (analyzeImpact ''A'' (two_cycle ''A'' ''B''))) \<and>
   ''A'' \<in> set (allDependents (analyzeImpact ''A'' (two_cycle ''A'' ''B''))) \<and>
   ''A'' \<in> set (directDependents (analyzeImpact ''A'' self_loop))"
  by (simp add: analyzeImpact_def Let_def two_cycle_def self_loop_def graph_of_def service_on_def
        findDependents_def Set_add_def new_Set_def)

text \<open>
  What the three sets are, for a graph whose declared names are distinct: the services
  reached from \<open>s\<close> along one or more edges, the services with an edge to \<open>s\<close>, and the
  services that reach \<open>s\<close> along one or more edges.
\<close>

lemma impact_is_closure:
  assumes "distinct (map fst (services g))"
  shows "set (dependencies (analyzeImpact s g)) = {b. (s, b) \<in> (set (depends_edges g))\<^sup>+}"
    and "set (directDependents (analyzeImpact s g)) = {a. (a, s) \<in> set (depends_edges g)}"
    and "set (allDependents (analyzeImpact s g)) = {a. (a, s) \<in> (set (depends_edges g))\<^sup>+}"
proof -
  show "set (dependencies (analyzeImpact s g)) = {b. (s, b) \<in> (set (depends_edges g))\<^sup>+}"
    by (rule dependencies_exact[OF assms])
  show "set (directDependents (analyzeImpact s g)) = {a. (a, s) \<in> set (depends_edges g)}"
    by (auto simp: analyzeImpact_def Let_def findDependents_iff)
  show "set (allDependents (analyzeImpact s g)) = {a. (a, s) \<in> (set (depends_edges g))\<^sup>+}"
    by (rule allDependents_exact)
qed

text \<open>
  Claim C2, as amended. On the two-node cycle in which \<open>a\<close> depends on \<open>b\<close> and \<open>b\<close>
  depends on \<open>a\<close> (two different names), \<open>findServiceDependencies a\<close> returns, and
  its result is the list \<open>[b, a]\<close>: the start node is reported as a dependency of
  itself, because \<open>b\<close> lists it. Each of the two nodes is visited exactly once.
\<close>

theorem findServiceDependencies_two_cycle:
  "a \<noteq> b \<Longrightarrow> findServiceDependencies a (two_cycle a b) [] = ([b, a], [a, b])"
  by (simp add: two_cycle_def graph_of_def service_on_def Set_add_def new_Set_def)

theorem findServiceDependencies_two_cycle_witness:
  "''A'' \<noteq> ''B'' \<and>
   findServiceDependencies ''A'' (two_cycle ''A'' ''B'') [] = ([''B'', ''A''], [''A'', ''B''])"
  using findServiceDependencies_two_cycle [of "''A''" "''B''"] by simp

text \<open>
  Claim C2 as the specification states it fails: on that cycle the set of names
  returned for \<open>A\<close> is not \<open>{B}\<close>.
\<close>

theorem findServiceDependencies_two_cycle_counterexample:
  "set (fst (findServiceDependencies ''A'' (two_cycle ''A'' ''B'') [])) \<noteq> {''B''}"
  by (simp add: two_cycle_def graph_of_def service_on_def Set_add_def new_Set_def)

lemma findServiceDependencies_undeclared:
  "\<not> is_declared s g \<Longrightarrow> fst (findServiceDependencies s g vis) = []"
proof -
  assume "\<not> is_declared s g"
  then have "map_of (services g) s = None"
    by (simp add: is_declared_def map_of_eq_None_iff)
  then show ?thesis by simp
qed

lemma findDependents_empty_iff:
  "findDependents s g = [] \<longleftrightarrow> \<not> is_referenced s g"
proof -
  have "findDependents s g = [] \<longleftrightarrow> set (findDependents s g) = {}" by simp
  also have "\<dots> \<longleftrightarrow> (\<forall>a. (a, s) \<notin> set (depends_edges g))"
    by (auto simp: findDependents_iff[symmetric])
  also have "\<dots> \<longleftrightarrow> \<not> is_referenced s g"
    by (force simp: is_referenced_def)
  finally show ?thesis .
qed

text \<open>
  Claim C3, as amended. For every graph and every id \<open>s\<close> that is not a declared
  node, the impact computation returns a result (it has no failing branch) whose
  dependencies are empty. When no declared node lists \<open>s\<close> in its \<open>depends_on\<close>, the
  direct and the transitive dependents are empty too. When \<open>s\<close> is a dangling
  reference, the direct dependents are the declared nodes that list it, so they are not
  empty, and the transitive dependents include them.
\<close>

theorem impact_of_undeclared:
  "\<not> is_declared s g \<Longrightarrow>
     dependencies (analyzeImpact s g) = [] \<and>
     (\<not> is_referenced s g \<longrightarrow>
        directDependents (analyzeImpact s g) = [] \<and> allDependents (analyzeImpact s g) = []) \<and>
     (is_referenced s g \<longrightarrow>
        directDependents (analyzeImpact s g) \<noteq> [] \<and>
        set (directDependents (analyzeImpact s g)) = {a. (a, s) \<in> set (depends_edges g)} \<and>
        set (directDependents (analyzeImpact s g)) \<subseteq> set (allDependents (analyzeImpact s g)))"
proof -
  assume und: "\<not> is_declared s g"
  have 1: "dependencies (analyzeImpact s g) = []"
    using findServiceDependencies_undeclared[OF und, of "[]"]
    by (simp add: analyzeImpact_def Let_def)
  have 2: "directDependents (analyzeImpact s g) = [] \<and> allDependents (analyzeImpact s g) = []"
    if "\<not> is_referenced s g"
  proof -
    from that have "findDependents s g = []" by (simp add: findDependents_empty_iff)
    then show ?thesis by (simp add: analyzeImpact_def Let_def new_Set_def)
  qed
  have 3: "directDependents (analyzeImpact s g) \<noteq> []" if "is_referenced s g"
    using that findDependents_empty_iff[of s g] by (simp add: analyzeImpact_def Let_def)
  have 4: "set (directDependents (analyzeImpact s g)) = {a. (a, s) \<in> set (depends_edges g)}"
    by (auto simp: analyzeImpact_def Let_def findDependents_iff)
  have 5: "set (directDependents (analyzeImpact s g)) \<subseteq> set (allDependents (analyzeImpact s g))"
    using bfs_loop_superset[of "new_Set (findDependents s g)" g "findDependents s g"]
    by (simp add: analyzeImpact_def Let_def)
  from 1 2 3 4 5 show ?thesis by blast
qed

theorem impact_of_undeclared_witness:
  "\<not> is_declared ''Payments'' chain3 \<and> \<not> is_referenced ''Payments'' chain3 \<and>
   dependencies (analyzeImpact ''Payments'' chain3) = [] \<and>
   directDependents (analyzeImpact ''Payments'' chain3) = [] \<and>
   allDependents (analyzeImpact ''Payments'' chain3) = [] \<and>
   \<not> is_declared ''Redis'' (getDefaultSystemMap ''t'') \<and>
   is_referenced ''Redis'' (getDefaultSystemMap ''t'') \<and>
   dependencies (analyzeImpact ''Redis'' (getDefaultSystemMap ''t'')) = [] \<and>
   directDependents (analyzeImpact ''Redis'' (getDefaultSystemMap ''t'')) \<noteq> []"
proof -
  have d1: "\<not> is_declared ''Payments'' chain3"
    by (simp add: is_declared_def chain3_def graph_of_def)
  have r1: "\<not> is_referenced ''Payments'' chain3"
    by (simp add: is_referenced_def depends_edges_def chain3_def graph_of_def service_on_def)
  have d2: "\<not> is_declared ''Redis'' (getDefaultSystemMap ''t'')"
    by (simp add: is_declared_def getDefaultSystemMap_def)
  have r2: "is_referenced ''Redis'' (getDefaultSystemMap ''t'')"
    by (simp add: is_referenced_def depends_edges_def getDefaultSystemMap_def)
  from impact_of_undeclared [OF d1] impact_of_undeclared [OF d2] d1 r1 d2 r2
  show ?thesis by simp
qed

text \<open>
  Claim C3 as the specification states it fails for a dangling reference: in the
  default system map \<open>Redis\<close> is not a declared node, but \<open>TracePulse\<close> lists it, so
  its direct and transitive dependents are not empty.
\<close>

theorem impact_of_dangling_reference_counterexample:
  "\<not> is_declared ''Redis'' (getDefaultSystemMap ''2025-01-01T00:00:00.000Z'') \<and>
   directDependents (analyzeImpact ''Redis'' (getDefaultSystemMap ''2025-01-01T00:00:00.000Z''))
     = [''TracePulse''] \<and>
   allDependents (analyzeImpact ''Redis'' (getDefaultSystemMap ''2025-01-01T00:00:00.000Z''))
     = [''TracePulse'', ''DebugQueue'']"
  by (simp add: is_declared_def analyzeImpact_def Let_def getDefaultSystemMap_def
        findDependents_def Set_add_def new_Set_def)

section \<open>Properties of the analysis\<close>

subsection \<open>Auxiliary facts\<close>

lemma trace_emit [simp]: "trace (emit a st) = trace st @ [a]"
  by (simp add: emit_def)

lemma store_emit [simp]: "store (emit a st) = store st"
  by (simp add: emit_def)

lemma read_array_emit [simp]: "read_array a (emit x st) = read_array a st"
  by (simp add: read_array_def)

lemma new_array_read:
  "read_array (fst (new_array xs st)) (snd (new_array xs st)) = xs"
  by (simp add: new_array_def read_array_def)

lemma new_array_allocated:
  "fst (new_array xs st) < length (store (snd (new_array xs st)))"
  by (simp add: new_array_def)

lemma trace_new_array [simp]: "trace (snd (new_array xs st)) = trace st"
  by (simp add: new_array_def)

lemma read_write_array:
  "a < length (store st) \<Longrightarrow> read_array a (write_array a xs st) = xs"
  by (simp add: read_array_def write_array_def)

lemma trace_write_array [simp]: "trace (write_array a xs st) = trace st"
  by (simp add: write_array_def)

lemma generateHypotheses_array:
  "read_array (fst (generateHypotheses w sc st)) (snd (generateHypotheses w sc st))
     = generated (Date_now w) (generator w sc)"
  by (simp add: generateHypotheses_def Let_def new_array_read)

lemma generateHypotheses_allocated:
  "fst (generateHypotheses w sc st) < length (store (snd (generateHypotheses w sc st)))"
  by (simp add: generateHypotheses_def Let_def new_array_allocated)

lemma unconvertible_truthy: "unconvertible v \<Longrightarrow> truthy (Some v)"
  by (cases v) simp_all

lemma unconvertible_js_or:
  "\<not> unconvertible d \<Longrightarrow> unconvertible (js_or (Some v) d) \<longleftrightarrow> unconvertible v"
  using unconvertible_truthy[of v] by (auto simp: js_or_def)

lemma ToNumber_None_iff: "ToNumber s2n v = None \<longleftrightarrow> unconvertible v"
proof (induction s2n v rule: ToNumber.induct)
  case (7 s2n x)
  then show ?case by (cases x) auto
qed auto

lemma by_confidence_None_iff:
  "by_confidence s2n a b = None
     \<longleftrightarrow> unconvertible (confidence a) \<or> unconvertible (confidence b)"
  using ToNumber_None_iff[of s2n "confidence a"] ToNumber_None_iff[of s2n "confidence b"]
  by (auto simp: by_confidence_def split: option.splits)

lemma Array_insert_length:
  "Array_insert c a bs = Some ys \<Longrightarrow> length ys = Suc (length bs)"
  by (induction bs arbitrary: ys) (auto split: option.splits if_splits)

lemma Array_insert_set:
  "Array_insert c a bs = Some ys \<Longrightarrow> set ys = insert a (set bs)"
  by (induction bs arbitrary: ys) (auto split: option.splits if_splits)

lemma Array_sort_length: "Array_sort c xs = Some ys \<Longrightarrow> length ys = length xs"
  by (induction xs arbitrary: ys) (auto split: option.splits dest: Array_insert_length)

lemma Array_sort_set: "Array_sort c xs = Some ys \<Longrightarrow> set ys = set xs"
  by (induction xs arbitrary: ys) (auto split: option.splits dest: Array_insert_set)

lemma Array_insert_convertible:
  "\<forall>h \<in> set (a # bs). \<not> unconvertible (confidence h)
     \<Longrightarrow> Array_insert (by_confidence s2n) a bs \<noteq> None"
proof (induction bs)
  case Nil
  show ?case by simp
next
  case (Cons b bs)
  then have "by_confidence s2n a b \<noteq> None" by (simp add: by_confidence_None_iff)
  with Cons show ?case by (auto split: option.splits)
qed

lemma Array_sort_convertible:
  "\<forall>h \<in> set xs. \<not> unconvertible (confidence h)
     \<Longrightarrow> Array_sort (by_confidence s2n) xs \<noteq> None"
proof (induction xs)
  case Nil
  show ?case by simp
next
  case (Cons a as)
  then obtain s where s: "Array_sort (by_confidence s2n) as = Some s" by auto
  with Cons.prems Array_sort_set[OF s]
  have "\<forall>h \<in> set (a # s). \<not> unconvertible (confidence h)" by simp
  from Array_insert_convertible[OF this, of s2n] s show ?case by simp
qed

lemma Array_insert_raises:
  "unconvertible (confidence a) \<or> unconvertible (confidence b)
     \<Longrightarrow> Array_insert (by_confidence s2n) a (b # bs) = None"
  by (simp add: by_confidence_None_iff[THEN iffD2])

lemma Array_sort_unrankable:
  "unrankable xs \<Longrightarrow> Array_sort (by_confidence s2n) xs = None"
proof (induction xs)
  case Nil
  then show ?case by (simp add: unrankable_def)
next
  case (Cons a as)
  show ?case
  proof (cases "Array_sort (by_confidence s2n) as")
    case None
    then show ?thesis by simp
  next
    case (Some s)
    from Cons.prems have len: "as \<noteq> []" by (auto simp: unrankable_def)
    with Array_sort_length[OF Some] obtain b bs where s: "s = b # bs" by (cases s) auto
    from Cons.IH Some have nr: "\<not> unrankable as" by auto
    have "unconvertible (confidence a) \<or> unconvertible (confidence b)"
    proof (cases "2 \<le> length as")
      case True
      with nr have "\<forall>h \<in> set as. \<not> unconvertible (confidence h)" by (auto simp: unrankable_def)
      with Cons.prems show ?thesis by (auto simp: unrankable_def)
    next
      case False
      with len obtain x where "as = [x]" by (cases as) (auto simp: not_le)
      with Some s have "as = [b]" by simp
      with Cons.prems show ?thesis by (auto simp: unrankable_def)
    qed
    from Array_insert_raises[OF this, of s2n bs] Some s show ?thesis by simp
  qed
qed

lemma Array_sort_None_iff:
  "Array_sort (by_confidence s2n) xs = None \<longleftrightarrow> unrankable xs"
proof
  assume n: "Array_sort (by_confidence s2n) xs = None"
  with Array_sort_convertible[of xs s2n]
  have bad: "\<exists>h \<in> set xs. unconvertible (confidence h)" by blast
  have "2 \<le> length xs"
  proof (rule ccontr)
    assume "\<not> 2 \<le> length xs"
    then consider "xs = []" | x where "xs = [x]"
      by (cases xs; cases "tl xs") auto
    then show False using n by cases simp_all
  qed
  with bad show "unrankable xs" by (simp add: unrankable_def)
next
  assume "unrankable xs"
  then show "Array_sort (by_confidence s2n) xs = None" by (rule Array_sort_unrankable)
qed

lemma convertible_sorts:
  "convertible xs \<Longrightarrow> \<exists>ys. Array_sort (by_confidence s2n) xs = Some ys \<and> \<not> unrenderable ys"
proof -
  assume c: "convertible xs"
  then have "Array_sort (by_confidence s2n) xs \<noteq> None"
    by (intro Array_sort_convertible) (simp add: convertible_def)
  then obtain ys where ys: "Array_sort (by_confidence s2n) xs = Some ys" by auto
  from Array_sort_set[OF ys] c have "\<not> unrenderable ys"
    by (cases ys) (auto simp: unrenderable_def convertible_def)
  with ys show ?thesis by blast
qed

lemma generateSummary_result:
  assumes "a < length (store st)"
  shows "fst (generateSummary w event a st) \<noteq> None \<longleftrightarrow>
           (\<exists>ys. Array_sort (by_confidence (StringToNumber w)) (read_array a st) = Some ys
                 \<and> \<not> unrenderable ys)"
    and "fst (generateSummary w event a st) \<noteq> None \<Longrightarrow>
           Array_sort (by_confidence (StringToNumber w)) (read_array a st)
             = Some (read_array a (snd (generateSummary w event a st)))"
proof -
  show "fst (generateSummary w event a st) \<noteq> None \<longleftrightarrow>
           (\<exists>ys. Array_sort (by_confidence (StringToNumber w)) (read_array a st) = Some ys
                 \<and> \<not> unrenderable ys)"
  proof (cases "Array_sort (by_confidence (StringToNumber w)) (read_array a st)")
    case None
    then show ?thesis by (simp add: generateSummary_def)
  next
    case (Some ys)
    show ?thesis
    proof (cases ys)
      case Nil
      with Some assms show ?thesis
        by (simp add: generateSummary_def Let_def read_write_array unrenderable_def js_or_def)
    next
      case (Cons h rest)
      with Some assms show ?thesis
        by (simp add: generateSummary_def Let_def read_write_array unrenderable_def
              unconvertible_js_or)
    qed
  qed
  show "fst (generateSummary w event a st) \<noteq> None \<Longrightarrow>
           Array_sort (by_confidence (StringToNumber w)) (read_array a st)
             = Some (read_array a (snd (generateSummary w event a st)))"
  proof (cases "Array_sort (by_confidence (StringToNumber w)) (read_array a st)")
    case None
    assume "fst (generateSummary w event a st) \<noteq> None"
    with None show ?thesis by (simp add: generateSummary_def)
  next
    case (Some ys)
    with assms show ?thesis
      by (simp add: generateSummary_def Let_def read_write_array)
  qed
qed

lemma analyzeEvent_hypotheses:
  "report_hypotheses (analyzeEvent w event ctx st)
     = (case Array_sort (by_confidence (StringToNumber w))
               (generated (Date_now w) (generator w (context_of w event ctx))) of
          None \<Rightarrow> None
        | Some ys \<Rightarrow> if unrenderable ys then None else Some ys)"
proof -
  let ?st3 = "emit (Call_getRecentDiffs (affected_service event))
               (emit (Call_analyzeImpact (affected_service event))
                 (emit (Log_info ''AI_ANALYSIS_START'') st))"
  let ?g = "generateHypotheses w (context_of w event ctx) ?st3"
  let ?s = "generateSummary w event (fst ?g) (snd ?g)"
  let ?gen = "generated (Date_now w) (generator w (context_of w event ctx))"
  have gen: "read_array (fst ?g) (snd ?g) = ?gen" by (rule generateHypotheses_array)
  have alloc: "fst ?g < length (store (snd ?g))" by (rule generateHypotheses_allocated)
  have unfold: "report_hypotheses (analyzeEvent w event ctx st)
          = (case fst ?s of None \<Rightarrow> None | Some x \<Rightarrow> Some (read_array (fst ?g) (snd ?s)))"
    by (simp add: report_hypotheses_def analyzeEvent_def context_of_def Let_def
          split: prod.splits option.splits)
  show ?thesis
  proof (cases "fst ?s")
    case None
    with generateSummary_result(1)[OF alloc, of w event] gen
    have "\<not> (\<exists>ys. Array_sort (by_confidence (StringToNumber w)) ?gen = Some ys \<and> \<not> unrenderable ys)"
      by simp
    with None unfold show ?thesis by (auto split: option.splits)
  next
    case (Some x)
    then have ne: "fst ?s \<noteq> None" by simp
    from generateSummary_result(2)[OF alloc ne] gen
    have sorted: "Array_sort (by_confidence (StringToNumber w)) ?gen = Some (read_array (fst ?g) (snd ?s))"
      by simp
    from generateSummary_result(1)[OF alloc, of w event] ne gen sorted
    have "\<not> unrenderable (read_array (fst ?g) (snd ?s))" by auto
    with Some unfold sorted show ?thesis by simp
  qed
qed

lemma analyzeEvent_returned_iff:
  "fst (analyzeEvent w event ctx st) \<noteq> None
     \<longleftrightarrow> report_hypotheses (analyzeEvent w event ctx st) \<noteq> None"
  by (simp add: report_hypotheses_def)

lemma analyzeEvent_report:
  "fst (analyzeEvent w event ctx st) = Some r \<Longrightarrow>
     correlationId' r = or_string (correlationId event) ''unknown'' \<and>
     affectedServices r
       = affected_service event
         # allDependents (analyzeImpact (affected_service event) (systemMap ctx))"
  by (auto simp: analyzeEvent_def Let_def split: prod.splits option.splits)

lemma analyzeEvent_convertible:
  assumes "convertible (generated (Date_now w) (generator w (context_of w event ctx)))"
  shows "\<exists>r. fst (analyzeEvent w event ctx st) = Some r"
proof -
  from convertible_sorts[OF assms, of "StringToNumber w"]
  have "report_hypotheses (analyzeEvent w event ctx st) \<noteq> None"
    by (auto simp: analyzeEvent_hypotheses)
  then show ?thesis by (simp add: report_hypotheses_def)
qed

lemma is_number_ToNumber:
  "is_number v \<Longrightarrow> \<exists>n. v = JNum n \<and> n \<noteq> NaN \<and> ToNumber s2n v = Some n"
  by (cases v) simp_all

lemma number_le_refl: "n \<noteq> NaN \<Longrightarrow> number_le n n"
  by (cases n) simp_all

lemma number_le_total: "x \<noteq> NaN \<Longrightarrow> y \<noteq> NaN \<Longrightarrow> number_le x y \<or> number_le y x"
  by (cases x; cases y) auto

lemma number_le_trans: "number_le x y \<Longrightarrow> number_le y z \<Longrightarrow> number_le x z"
  by (cases x; cases y; cases z) auto

lemma positive_minus_number:
  "x \<noteq> NaN \<Longrightarrow> y \<noteq> NaN \<Longrightarrow> positive (minus_number y x) \<longleftrightarrow> \<not> number_le y x"
  by (cases x; cases y) auto

lemma by_confidence_numbers:
  assumes "is_number (confidence a)" "is_number (confidence b)"
  shows "\<exists>v. by_confidence s2n a b = Some v \<and>
             (positive v \<longleftrightarrow> \<not> ranks_above s2n (confidence a) (confidence b))"
proof -
  from is_number_ToNumber[OF assms(1), of s2n] obtain x
    where x: "x \<noteq> NaN" "ToNumber s2n (confidence a) = Some x" by blast
  from is_number_ToNumber[OF assms(2), of s2n] obtain y
    where y: "y \<noteq> NaN" "ToNumber s2n (confidence b) = Some y" by blast
  from x y show ?thesis
    by (simp add: by_confidence_def ranks_above_def positive_minus_number)
qed

lemma ranks_above_refl: "is_number v \<Longrightarrow> ranks_above s2n v v"
  using is_number_ToNumber[of v s2n] by (auto simp: ranks_above_def number_le_refl)

lemma ranks_above_total:
  "is_number u \<Longrightarrow> is_number v \<Longrightarrow> ranks_above s2n u v \<or> ranks_above s2n v u"
proof -
  assume "is_number u" "is_number v"
  then obtain x y where "x \<noteq> NaN" "ToNumber s2n u = Some x" "y \<noteq> NaN" "ToNumber s2n v = Some y"
    using is_number_ToNumber[of u s2n] is_number_ToNumber[of v s2n] by blast
  with number_le_total[of x y] show ?thesis by (auto simp: ranks_above_def)
qed

lemma ranks_above_trans:
  "ranks_above s2n u v \<Longrightarrow> ranks_above s2n v t \<Longrightarrow> ranks_above s2n u t"
proof -
  assume "ranks_above s2n u v" "ranks_above s2n v t"
  then obtain x y z where n: "ToNumber s2n u = Some x" "ToNumber s2n v = Some y"
      "ToNumber s2n t = Some z" and le: "number_le y x" "number_le z y"
    by (auto simp: ranks_above_def split: option.splits)
  from number_le_trans[OF le(2) le(1)] n show ?thesis by (simp add: ranks_above_def)
qed

lemma Array_insert_descending:
  assumes "\<forall>h \<in> set (a # bs). is_number (confidence h)"
    and "descending s2n bs"
    and "Array_insert (by_confidence s2n) a bs = Some ys"
  shows "descending s2n ys"
  using assms
proof (induction bs arbitrary: ys)
  case Nil
  then show ?case by (auto simp: descending_def)
next
  case (Cons b bs)
  from Cons.prems(1) have na: "is_number (confidence a)" and nb: "is_number (confidence b)"
    by simp_all
  from by_confidence_numbers[OF na nb, of s2n] obtain v
    where v: "by_confidence s2n a b = Some v"
      "positive v \<longleftrightarrow> \<not> ranks_above s2n (confidence a) (confidence b)" by blast
  show ?case
  proof (cases "positive v")
    case False
    with v have ab: "ranks_above s2n (confidence a) (confidence b)" by simp
    from False v Cons.prems(3) have ys: "ys = a # b # bs" by simp
    have "ranks_above s2n (confidence a) (confidence c)" if "c \<in> set bs" for c
    proof -
      from that Cons.prems(2) have "ranks_above s2n (confidence b) (confidence c)"
        by (simp add: descending_def)
      with ab show ?thesis by (rule ranks_above_trans)
    qed
    with ab Cons.prems(2) show ?thesis unfolding ys by (auto simp: descending_def)
  next
    case True
    with v Cons.prems(3) obtain r where r: "Array_insert (by_confidence s2n) a bs = Some r" "ys = b # r"
      by auto
    have "descending s2n r"
    proof (rule Cons.IH[OF _ _ r(1)])
      from Cons.prems(1) show "\<forall>h \<in> set (a # bs). is_number (confidence h)" by simp
      from Cons.prems(2) show "descending s2n bs" by (simp add: descending_def)
    qed
    moreover from True v ranks_above_total[OF na nb, of s2n]
    have ba: "ranks_above s2n (confidence b) (confidence a)" by auto
    moreover have "\<forall>c \<in> set r. ranks_above s2n (confidence b) (confidence c)"
      using Array_insert_set[OF r(1)] ba Cons.prems(2) by (simp add: descending_def)
    ultimately show ?thesis unfolding r(2) by (simp add: descending_def)
  qed
qed

lemma Array_sort_descending:
  assumes "\<forall>h \<in> set xs. is_number (confidence h)"
    and "Array_sort (by_confidence s2n) xs = Some ys"
  shows "descending s2n ys"
  using assms
proof (induction xs arbitrary: ys)
  case Nil
  then show ?case by (simp add: descending_def)
next
  case (Cons a as)
  from Cons.prems(2) obtain s where s: "Array_sort (by_confidence s2n) as = Some s"
    "Array_insert (by_confidence s2n) a s = Some ys"
    by (auto split: option.splits)
  from Cons.prems(1) Cons.IH[OF _ s(1)] have d: "descending s2n s" by simp
  from Cons.prems(1) Array_sort_set[OF s(1)]
  have n: "\<forall>h \<in> set (a # s). is_number (confidence h)" by simp
  show ?case by (rule Array_insert_descending[OF n d s(2)])
qed

lemma Array_insert_stable:
  assumes "\<forall>h \<in> set (a # bs). is_number (confidence h)"
    and "Array_insert (by_confidence s2n) a bs = Some ys"
  shows "filter (\<lambda>h. confidence h = c) ys = filter (\<lambda>h. confidence h = c) (a # bs)"
  using assms
proof (induction bs arbitrary: ys)
  case Nil
  then show ?case by auto
next
  case (Cons b bs)
  from Cons.prems(1) have na: "is_number (confidence a)" and nb: "is_number (confidence b)"
    by simp_all
  from by_confidence_numbers[OF na nb, of s2n] obtain v
    where v: "by_confidence s2n a b = Some v"
      "positive v \<longleftrightarrow> \<not> ranks_above s2n (confidence a) (confidence b)" by blast
  show ?case
  proof (cases "positive v")
    case False
    with v Cons.prems(2) show ?thesis by simp
  next
    case True
    with v Cons.prems(2) obtain r where r: "Array_insert (by_confidence s2n) a bs = Some r" "ys = b # r"
      by auto
    from True v ranks_above_refl[OF na, of s2n] have ne: "confidence a \<noteq> confidence b" by auto
    from Cons.prems(1) Cons.IH[OF _ r(1)]
    have "filter (\<lambda>h. confidence h = c) r = filter (\<lambda>h. confidence h = c) (a # bs)" by simp
    with ne show ?thesis unfolding r(2) by auto
  qed
qed

lemma Array_sort_stable:
  assumes "\<forall>h \<in> set xs. is_number (confidence h)"
    and "Array_sort (by_confidence s2n) xs = Some ys"
  shows "filter (\<lambda>h. confidence h = c) ys = filter (\<lambda>h. confidence h = c) xs"
  using assms
proof (induction xs arbitrary: ys)
  case Nil
  then show ?case by simp
next
  case (Cons a as)
  from Cons.prems(2) obtain s where s: "Array_sort (by_confidence s2n) as = Some s"
    "Array_insert (by_confidence s2n) a s = Some ys"
    by (auto split: option.splits)
  from Cons.prems(1) Array_sort_set[OF s(1)]
  have "\<forall>h \<in> set (a # s). is_number (confidence h)" by simp
  from Array_insert_stable[OF this s(2), of c] Cons.prems(1) Cons.IH[OF _ s(1)]
  show ?case by simp
qed

lemma processCorrelatedEvents_skip:
  "filter is_critical events = [] \<Longrightarrow>
     processCorrelatedEvents w cid events env st = (None, emit (Log_info ''NO_CRITICAL_EVENTS'') st)"
  by (simp add: processCorrelatedEvents_def)

lemma processCorrelatedEvents_analyze:
  assumes "filter is_critical events = first # others"
  shows "fst (processCorrelatedEvents w cid events env st)
           = fst (analyzeEvent w first (group_context w events env)
                    (emit Call_getSystemMap (emit (Log_info ''ANALYZING_CRITICAL_EVENTS'') st)))"
    and "report_hypotheses (processCorrelatedEvents w cid events env st)
           = report_hypotheses (analyzeEvent w first (group_context w events env)
                    (emit Call_getSystemMap (emit (Log_info ''ANALYZING_CRITICAL_EVENTS'') st)))"
  using assms
  by (auto simp: processCorrelatedEvents_def group_context_def Let_def report_hypotheses_def
        split: prod.splits option.splits)


lemma those_map_member:
  "those (map f xs) = Some ys \<Longrightarrow> y \<in> set ys \<Longrightarrow> \<exists>x \<in> set xs. f x = Some y"
  by (induction xs arbitrary: ys) (auto split: option.splits)








lemma critical_subset_example:
  "filter is_critical [cart_viewed, payment_failed] = [payment_failed]"
  by (simp add: is_critical_def cart_viewed_def payment_failed_def event_of_def)

lemma allDependents_distinct: "distinct (allDependents (analyzeImpact s g))"
  by (simp add: analyzeImpact_def Let_def bfs_loop_distinct)


lemma report_hypotheses_sorted_generated:
  "report_hypotheses (analyzeEvent w event ctx st) = Some hs \<Longrightarrow>
     Array_sort (by_confidence (StringToNumber w))
       (generated (Date_now w) (generator w (context_of w event ctx))) = Some hs"
  by (auto simp: analyzeEvent_hypotheses split: option.splits if_splits)

lemma map_of_Map_push:
  "map_of (Map_push k e groups) k'
     = (if k' = k
        then Some ((case map_of groups k of None \<Rightarrow> [] | Some es \<Rightarrow> es) @ [e])
        else map_of groups k')"
  by (induction groups) auto

lemma map_fst_Map_push:
  "map fst (Map_push k e groups)
     = (if k \<in> set (map fst groups) then map fst groups else map fst groups @ [k])"
proof (induction groups)
  case Nil
  show ?case by simp
next
  case (Cons g groups)
  obtain k' es where g: "g = (k', es)" by (cases g)
  show ?case
  proof (cases "k' = k")
    case True
    with g show ?thesis by simp
  next
    case False
    with g Cons show ?thesis by (cases "k \<in> set (map fst groups)") auto
  qed
qed

lemma keys_Map_push:
  "set (map fst (Map_push k e groups)) = insert k (set (map fst groups))"
  by (auto simp: map_fst_Map_push simp del: set_map)

lemma map_of_fold_Map_push:
  "map_of (fold (\<lambda>event groups. Map_push (correlation_key event) event groups) events acc) k
     = (if k \<in> correlation_key ` set events \<or> k \<in> set (map fst acc)
        then Some ((case map_of acc k of None \<Rightarrow> [] | Some es \<Rightarrow> es)
                   @ filter (\<lambda>e. correlation_key e = k) events)
        else None)"
proof (induction events arbitrary: acc)
  case Nil
  show ?case
  proof (cases "map_of acc k")
    case None
    then show ?thesis by (simp add: map_of_eq_None_iff)
  next
    case (Some es)
    then have "k \<in> set (map fst acc)" by (metis map_of_eq_None_iff option.distinct(1) set_map)
    with Some show ?thesis by simp
  qed
next
  case (Cons e events)
  show ?case
  proof (cases "correlation_key e = k")
    case True
    then show ?thesis
      by (simp add: Cons.IH map_of_Map_push keys_Map_push del: set_map)
  next
    case False
    then show ?thesis
      by (simp add: Cons.IH map_of_Map_push keys_Map_push del: set_map)
  qed
qed

lemma group_by_correlation_lookup:
  "map_of (group_by_correlation events) k
     = (if k \<in> correlation_key ` set events
        then Some (filter (\<lambda>e. correlation_key e = k) events)
        else None)"
  by (simp add: group_by_correlation_def map_of_fold_Map_push)

lemma generated_four:
  "generated now four_hypotheses
     = [mapped now 0 ''timeout'' (JNum (Finite 70)) [],
        mapped now 1 ''deploy'' (JNum (Finite 90)) [],
        mapped now 2 ''cache'' (JNum (Finite 70)) [],
        mapped now 3 ''dns'' (JNum (Finite 50)) [mapped_zero_evidence]]"
  by (simp add: generated_def attempt_def four_hypotheses_def four_raw_def raw_hypothesis_def
        dns_hypothesis_def zero_evidence_def map_hypotheses_def map_hypothesis_def
        map_evidence_def js_or_def mapped_def mapped_zero_evidence_def enumerate_eq_zip
        numeral_3_eq_3 numeral_2_eq_2)

lemma generated_worded:
  "generated now worded_confidences
     = [mapped now 0 ''a'' (JStr ''low'') [],
        mapped now 1 ''b'' (JNum (Finite 90)) [],
        mapped now 2 ''c'' (JNum (Finite 95)) [],
        mapped now 3 ''d'' (JStr ''80'') []]"
  by (simp add: generated_def attempt_def worded_confidences_def worded_raw_def
        raw_hypothesis_def map_hypotheses_def map_hypothesis_def
        js_or_def mapped_def enumerate_eq_zip numeral_3_eq_3 numeral_2_eq_2)

lemma sorted_four:
  "Array_sort (by_confidence s2n) (generated now four_hypotheses)
     = Some [mapped now 1 ''deploy'' (JNum (Finite 90)) [],
             mapped now 0 ''timeout'' (JNum (Finite 70)) [],
             mapped now 2 ''cache'' (JNum (Finite 70)) [],
             mapped now 3 ''dns'' (JNum (Finite 50)) [mapped_zero_evidence]]"
  by (simp add: generated_four by_confidence_def mapped_def)

lemma decimal_digits_low: "decimal_digits ''low'' = NaN"
  by (simp add: decimal_digits_def digit_of_def)

lemma decimal_digits_80: "decimal_digits ''80'' = Finite 80"
  by (simp add: decimal_digits_def digit_of_def)

lemma sorted_worded:
  "Array_sort (by_confidence decimal_digits) (generated now worded_confidences)
     = Some [mapped now 0 ''a'' (JStr ''low'') [],
             mapped now 2 ''c'' (JNum (Finite 95)) [],
             mapped now 1 ''b'' (JNum (Finite 90)) [],
             mapped now 3 ''d'' (JStr ''80'') []]"
  by (simp add: generated_worded by_confidence_def mapped_def decimal_digits_low decimal_digits_80)

lemma js_or_falsy: "\<not> truthy a \<Longrightarrow> js_or a d = d"
  by (cases a) (simp_all add: js_or_def)

lemma js_or_truthy: "truthy (Some d) \<Longrightarrow> truthy (Some (js_or a d))"
  by (cases a) (simp_all add: js_or_def)

lemma truthy_nonzero: "truthy (Some v) \<Longrightarrow> v \<noteq> JNum (Finite 0)"
  by auto

lemma map_evidence_confidence:
  "map_evidence e = Some ev \<Longrightarrow>
     \<exists>ec. get e ''confidence'' = Some ec \<and> confidence' ev = js_or ec (JNum (Finite 50))"
  by (auto simp: map_evidence_def split: option.splits)

lemma map_evidence_truthy: "map_evidence e = Some ev \<Longrightarrow> truthy (Some (confidence' ev))"
  using map_evidence_confidence[of e ev] by (auto simp: js_or_truthy)

lemma map_hypothesis_confidence:
  "map_hypothesis now index h = Some x \<Longrightarrow>
     \<exists>c. get h ''confidence'' = Some c \<and> confidence x = js_or c (JNum (Finite 50))"
  by (auto simp: map_hypothesis_def split: option.splits)

lemma map_hypothesis_truthy:
  assumes "map_hypothesis now index h = Some x"
  shows "truthy (Some (confidence x))"
    and "\<forall>ev \<in> set (evidence x). truthy (Some (confidence' ev))"
proof -
  from map_hypothesis_confidence[OF assms] show "truthy (Some (confidence x))"
    by (auto simp: js_or_truthy)
  from assms obtain es where es: "those (map map_evidence es) = Some (evidence x)"
    by (auto simp: map_hypothesis_def split: option.splits)
  show "\<forall>ev \<in> set (evidence x). truthy (Some (confidence' ev))"
  proof
    fix ev assume "ev \<in> set (evidence x)"
    from those_map_member[OF es this] obtain e where "map_evidence e = Some ev" by blast
    then show "truthy (Some (confidence' ev))" by (rule map_evidence_truthy)
  qed
qed

lemma map_hypotheses_truthy:
  assumes "map_hypotheses now result = Some xs" and "x \<in> set xs"
  shows "truthy (Some (confidence x)) \<and> (\<forall>ev \<in> set (evidence x). truthy (Some (confidence' ev)))"
proof -
  from assms(1) obtain hs where
    hs: "those (map (\<lambda>(index, h). map_hypothesis now index h) (enumerate 0 hs)) = Some xs"
    by (auto simp: map_hypotheses_def split: option.splits)
  from those_map_member[OF hs assms(2)] obtain i h where "map_hypothesis now i h = Some x"
    by auto
  from map_hypothesis_truthy[OF this] show ?thesis by simp
qed

lemma generated_truthy:
  assumes "x \<in> set (generated now reply)"
  shows "truthy (Some (confidence x)) \<and> (\<forall>ev \<in> set (evidence x). truthy (Some (confidence' ev)))"
proof (cases "attempt now reply")
  case None
  with assms show ?thesis by (simp add: generated_def getFallbackHypotheses_def)
next
  case (Some xs)
  with assms have x: "x \<in> set xs" by (simp add: generated_def)
  from Some obtain result where "map_hypotheses now result = Some xs"
    by (cases reply) (auto simp: attempt_def)
  from map_hypotheses_truthy[OF this x] show ?thesis .
qed

subsection \<open>Skipping a group\<close>

text \<open>
  Claim C4. A correlation group in which no event has priority high or level error or
  critical (in particular a group whose events all have priority low and level info) is
  skipped: \<open>processCorrelatedEvents\<close> returns no report, and all it does is write the
  log entry \<open>NO_CRITICAL_EVENTS\<close>. The trace gains no call of the impact analysis and
  no call of the generator, and no array of hypotheses is allocated.
\<close>

theorem group_without_critical_event_skipped:
  "\<forall>e \<in> set events. priority e \<noteq> Some High \<and> level e \<noteq> Some Error \<and> level e \<noteq> Some Critical \<Longrightarrow>
     fst (processCorrelatedEvents w cid events env st) = None \<and>
     trace (snd (processCorrelatedEvents w cid events env st))
       = trace st @ [Log_info ''NO_CRITICAL_EVENTS''] \<and>
     store (snd (processCorrelatedEvents w cid events env st)) = store st"
proof -
  assume "\<forall>e \<in> set events. priority e \<noteq> Some High \<and> level e \<noteq> Some Error \<and> level e \<noteq> Some Critical"
  then have "filter is_critical events = []"
    by (simp add: is_critical_def filter_empty_conv)
  then show ?thesis by (simp add: processCorrelatedEvents_skip)
qed

theorem group_without_critical_event_skipped_witness:
  "priority cart_viewed = Some Low \<and> level cart_viewed = Some Info \<and>
   fst (processCorrelatedEvents (world_of chain3 four_hypotheses) ''tx-1'' [cart_viewed] None
          initial_state) = None \<and>
   trace (snd (processCorrelatedEvents (world_of chain3 four_hypotheses) ''tx-1'' [cart_viewed]
                 None initial_state))
     = [Log_info ''NO_CRITICAL_EVENTS'']"
proof -
  have p: "priority cart_viewed = Some Low" and l: "level cart_viewed = Some Info"
    by (simp_all add: cart_viewed_def event_of_def)
  then have h: "\<forall>e \<in> set [cart_viewed].
             priority e \<noteq> Some High \<and> level e \<noteq> Some Error \<and> level e \<noteq> Some Critical"
    by simp
  from group_without_critical_event_skipped
         [OF h, where w = "world_of chain3 four_hypotheses" and cid = "''tx-1''"
            and env = None and st = initial_state] p l
  show ?thesis by (simp add: initial_state_def)
qed

subsection \<open>The fallback\<close>






text \<open>
  No report is returned when the summary cannot be rendered: a single hypothesis whose
  title is an object with an own property \<open>toString\<close> makes the template raise.
\<close>

lemma unprintable_title_no_report:
  "fst (processCorrelatedEvents (world_of chain3 unprintable_title) ''tx-1''
          [cart_viewed, payment_failed] None initial_state) = None"
proof -
  have "generated 1700000000000 unprintable_title
          = [\<lparr>id' = hypothesis_id 1700000000000 0,
               title = JObj [(''toString'', JNum (Finite 1))], description' = JStr [],
               confidence = JNum (Finite 80), evidence = [], suggestedActions = JArr [],
               relatedServices = JArr []\<rparr>]"
    by (simp add: generated_def attempt_def unprintable_title_def map_hypotheses_def
          map_hypothesis_def js_or_def enumerate_eq_zip)
  then have "report_hypotheses
     (processCorrelatedEvents (world_of chain3 unprintable_title) ''tx-1''
        [cart_viewed, payment_failed] None initial_state) = None"
    by (simp add: processCorrelatedEvents_analyze(2)[OF critical_subset_example]
          analyzeEvent_hypotheses world_of_def unrenderable_def)
  then show ?thesis by (simp add: report_hypotheses_def)
qed

subsection \<open>Ranking\<close>

text \<open>
  Claim C7, as amended. The hypothesis list of every returned report in which every
  confidence is a number is sorted by confidence in descending order, and for every
  confidence value the hypotheses with that confidence stand in the order in which
  \<open>generateHypotheses\<close> produced them, which is the order of the generator's response.
  The report sees the sorted array because \<open>generateSummary\<close> sorts in place the array
  that the report refers to.
\<close>

theorem report_hypotheses_ranked:
  assumes "report_hypotheses (analyzeEvent w event ctx st) = Some hs"
    and "\<forall>h \<in> set hs. is_number (confidence h)"
  shows "descending (StringToNumber w) hs \<and>
         (\<forall>c. filter (\<lambda>h. confidence h = c) hs
                = filter (\<lambda>h. confidence h = c)
                    (generated (Date_now w) (generator w (context_of w event ctx))))"
proof -
  let ?gen = "generated (Date_now w) (generator w (context_of w event ctx))"
  from report_hypotheses_sorted_generated[OF assms(1)]
  have s: "Array_sort (by_confidence (StringToNumber w)) ?gen = Some hs" .
  from Array_sort_set[OF s] assms(2) have n: "\<forall>h \<in> set ?gen. is_number (confidence h)" by simp
  from Array_sort_descending[OF n s] Array_sort_stable[OF n s] show ?thesis by simp
qed

theorem report_hypotheses_ranked_witness:
  "report_hypotheses
     (analyzeEvent (world_of chain3 four_hypotheses) payment_failed
        (group_context (world_of chain3 four_hypotheses) [cart_viewed, payment_failed] None)
        initial_state)
     = Some [mapped 1700000000000 1 ''deploy'' (JNum (Finite 90)) [],
             mapped 1700000000000 0 ''timeout'' (JNum (Finite 70)) [],
             mapped 1700000000000 2 ''cache'' (JNum (Finite 70)) [],
             mapped 1700000000000 3 ''dns'' (JNum (Finite 50)) [mapped_zero_evidence]] \<and>
   descending decimal_digits
     [mapped 1700000000000 1 ''deploy'' (JNum (Finite 90)) [],
      mapped 1700000000000 0 ''timeout'' (JNum (Finite 70)) [],
      mapped 1700000000000 2 ''cache'' (JNum (Finite 70)) [],
      mapped 1700000000000 3 ''dns'' (JNum (Finite 50)) [mapped_zero_evidence]]"
proof -
  let ?w = "world_of chain3 four_hypotheses"
  let ?c = "group_context ?w [cart_viewed, payment_failed] None"
  let ?hs = "[mapped 1700000000000 1 ''deploy'' (JNum (Finite 90)) [],
              mapped 1700000000000 0 ''timeout'' (JNum (Finite 70)) [],
              mapped 1700000000000 2 ''cache'' (JNum (Finite 70)) [],
              mapped 1700000000000 3 ''dns'' (JNum (Finite 50)) [mapped_zero_evidence]]"
  have r: "report_hypotheses (analyzeEvent ?w payment_failed ?c initial_state) = Some ?hs"
    by (simp add: analyzeEvent_hypotheses world_of_def sorted_four unrenderable_def mapped_def)
  have n: "\<forall>h \<in> set ?hs. is_number (confidence h)"
    by (simp add: mapped_def)
  from report_hypotheses_ranked [OF r n] r show ?thesis by (simp add: world_of_def)
qed

text \<open>
  Claim C7 as the specification states it fails when the generator returns a
  confidence that is not a number, which \<open>h.confidence || 50\<close> keeps: for the
  confidences \<open>low\<close>, 90, 95 and \<open>80\<close>, in this order, the comparator is NaN on every
  pair with \<open>low\<close>, and the report lists \<open>low\<close> first, above 95.
\<close>

theorem ranking_of_worded_confidence_counterexample:
  "map_option (map confidence)
     (report_hypotheses
        (analyzeEvent (world_of chain3 worded_confidences) payment_failed
           (group_context (world_of chain3 worded_confidences) [cart_viewed, payment_failed] None)
           initial_state))
     = Some [JStr ''low'', JNum (Finite 95), JNum (Finite 90), JStr ''80''] \<and>
   map_option (descending decimal_digits)
     (report_hypotheses
        (analyzeEvent (world_of chain3 worded_confidences) payment_failed
           (group_context (world_of chain3 worded_confidences) [cart_viewed, payment_failed] None)
           initial_state))
     = Some False"
proof -
  let ?w = "world_of chain3 worded_confidences"
  let ?c = "group_context ?w [cart_viewed, payment_failed] None"
  have r: "report_hypotheses (analyzeEvent ?w payment_failed ?c initial_state)
             = Some [mapped 1700000000000 0 ''a'' (JStr ''low'') [],
                     mapped 1700000000000 2 ''c'' (JNum (Finite 95)) [],
                     mapped 1700000000000 1 ''b'' (JNum (Finite 90)) [],
                     mapped 1700000000000 3 ''d'' (JStr ''80'') []]"
    by (simp add: analyzeEvent_hypotheses world_of_def sorted_worded unrenderable_def mapped_def)
  show ?thesis
    unfolding r
    by (simp add: mapped_def descending_def ranks_above_def decimal_digits_low)
qed

subsection \<open>Affected services\<close>

text \<open>
  Claim C8, as amended. The affected-services list of every returned report is the
  primary affected service followed by the transitive dependents in the order in which
  the breadth-first search discovered them. It starts with the primary service, and the
  dependents after it are free of duplicates. The whole list is free of duplicates
  exactly when the primary service does not lie on a cycle of the graph. A report is
  returned whenever the titles and the confidences of the generated hypotheses convert.
\<close>

theorem affectedServices_shape:
  "(\<forall>r. fst (analyzeEvent w event ctx st) = Some r \<longrightarrow>
        affectedServices r
          = affected_service event
            # allDependents (analyzeImpact (affected_service event) (systemMap ctx)) \<and>
        hd (affectedServices r) = affected_service event \<and>
        distinct (tl (affectedServices r)) \<and>
        (distinct (affectedServices r)
           \<longleftrightarrow> \<not> on_cycle (affected_service event) (systemMap ctx))) \<and>
   (convertible (generated (Date_now w) (generator w (context_of w event ctx)))
      \<longrightarrow> (\<exists>r. fst (analyzeEvent w event ctx st) = Some r))"
proof -
  have cyc: "affected_service event
          \<in> set (allDependents (analyzeImpact (affected_service event) (systemMap ctx)))
        \<longleftrightarrow> on_cycle (affected_service event) (systemMap ctx)"
    by (simp add: allDependents_exact on_cycle_def)
  have 1: "affectedServices r
          = affected_service event
            # allDependents (analyzeImpact (affected_service event) (systemMap ctx)) \<and>
        hd (affectedServices r) = affected_service event \<and>
        distinct (tl (affectedServices r)) \<and>
        (distinct (affectedServices r)
           \<longleftrightarrow> \<not> on_cycle (affected_service event) (systemMap ctx))"
    if "fst (analyzeEvent w event ctx st) = Some r" for r
    using analyzeEvent_report[OF that] cyc by (simp add: allDependents_distinct)
  have 2: "\<exists>r. fst (analyzeEvent w event ctx st) = Some r"
    if "convertible (generated (Date_now w) (generator w (context_of w event ctx)))"
    by (rule analyzeEvent_convertible[OF that])
  from 1 2 show ?thesis by blast
qed

theorem affectedServices_shape_witness:
  "\<not> on_cycle ''B'' chain3 \<and>
   (\<exists>r. fst (analyzeEvent (world_of chain3 Throws) session_drop
                (group_context (world_of chain3 Throws) [session_drop] None) initial_state)
           = Some r \<and>
         affectedServices r = [''B'', ''A''] \<and> distinct (affectedServices r))"
proof -
  let ?w = "world_of chain3 Throws"
  let ?c = "group_context ?w [session_drop] None"
  have g: "systemMap ?c = chain3"
    by (simp add: group_context_def world_of_def)
  have s: "affected_service session_drop = ''B''"
    by (simp add: affected_service_def session_drop_def event_of_def or_string_def)
  have h: "\<not> on_cycle ''B'' chain3"
    unfolding on_cycle_def chain3_def graph_of_def service_on_def depends_edges_def
    by code_simp
  have c: "convertible (generated (Date_now ?w) (generator ?w (context_of ?w session_drop ?c)))"
    by (simp add: world_of_def generated_def attempt_def convertible_def
          getFallbackHypotheses_def)
  from affectedServices_shape
         [where w = ?w and event = session_drop and ctx = ?c and st = initial_state]
       g s h c impact_chain3
  show ?thesis by auto
qed

text \<open>
  Claim C8 as the specification states it fails on a cycle: on the two-node cycle the
  primary service \<open>A\<close> is among its own transitive dependents, and the list names it
  twice.
\<close>

theorem affectedServices_duplicate_counterexample:
  "map_option affectedServices
     (fst (analyzeEvent (world_of (two_cycle ''A'' ''B'') Throws) payment_failed
             (group_context (world_of (two_cycle ''A'' ''B'') Throws) [payment_failed] None)
             initial_state))
     = Some [''A'', ''B'', ''A''] \<and>
   \<not> distinct [''A'', ''B'', ''A'']"
proof -
  let ?w = "world_of (two_cycle ''A'' ''B'') Throws"
  let ?c = "group_context ?w [payment_failed] None"
  have s: "affected_service payment_failed = ''A''"
    by (simp add: affected_service_def payment_failed_def event_of_def or_string_def)
  have a: "allDependents (analyzeImpact ''A'' (two_cycle ''A'' ''B'')) = [''B'', ''A'']"
    by (simp add: analyzeImpact_def Let_def two_cycle_def graph_of_def service_on_def
          findDependents_def new_Set_def Set_add_def)
  have c: "convertible (generated (Date_now ?w) (generator ?w (context_of ?w payment_failed ?c)))"
    by (simp add: world_of_def generated_def attempt_def convertible_def
          getFallbackHypotheses_def)
  from analyzeEvent_convertible[OF c, of initial_state]
  obtain r where r: "fst (analyzeEvent ?w payment_failed ?c initial_state) = Some r" by blast
  from analyzeEvent_report[OF r] s a
  have "affectedServices r = [''A'', ''B'', ''A'']"
    by (simp add: group_context_def world_of_def)
  with r show ?thesis by simp
qed

subsection \<open>Correlation ids\<close>

text \<open>
  Claim C9. When the triggering event has no correlation id (absent or empty), the
  \<open>correlationId\<close> of the returned report is \<open>unknown\<close>, whereas \<open>processEvents\<close> puts
  the event into the group with the key \<open>uncorrelated\<close>; the two strings differ. A
  report is returned whenever the titles and the confidences of the generated
  hypotheses convert.
\<close>

theorem uncorrelated_report_id:
  assumes "correlationId event = None \<or> correlationId event = Some []"
    and "event \<in> set events"
  shows "(\<forall>r. fst (analyzeEvent w event ctx st) = Some r \<longrightarrow>
            correlationId' r = ''unknown'' \<and> correlationId' r \<noteq> correlation_key event) \<and>
         correlation_key event = ''uncorrelated'' \<and>
         (\<exists>es. map_of (group_by_correlation events) ''uncorrelated'' = Some es \<and> event \<in> set es) \<and>
         (convertible (generated (Date_now w) (generator w (context_of w event ctx)))
            \<longrightarrow> map_option correlationId' (fst (analyzeEvent w event ctx st)) = Some ''unknown'')"
proof -
  from assms(1) have k: "correlation_key event = ''uncorrelated''"
    by (auto simp: correlation_key_def or_string_def)
  from assms(1) have u: "or_string (correlationId event) ''unknown'' = ''unknown''"
    by (auto simp: or_string_def)
  have 1: "correlationId' r = ''unknown''" if "fst (analyzeEvent w event ctx st) = Some r" for r
    using analyzeEvent_report[OF that] u by simp
  from k assms(2) have "''uncorrelated'' \<in> correlation_key ` set events"
    by (metis imageI)
  with k assms(2)
  have 2: "\<exists>es. map_of (group_by_correlation events) ''uncorrelated'' = Some es \<and> event \<in> set es"
    by (simp add: group_by_correlation_lookup)
  have 3: "map_option correlationId' (fst (analyzeEvent w event ctx st)) = Some ''unknown''"
    if "convertible (generated (Date_now w) (generator w (context_of w event ctx)))"
    using analyzeEvent_convertible[OF that, of st] 1 by auto
  from 1 2 3 k show ?thesis by auto
qed

theorem uncorrelated_report_id_witness:
  "correlationId session_drop = None \<and>
   map_option correlationId'
     (fst (analyzeEvent (world_of chain3 Throws) session_drop
             (group_context (world_of chain3 Throws) [session_drop] None) initial_state))
     = Some ''unknown'' \<and>
   correlation_key session_drop = ''uncorrelated'' \<and>
   map_of (group_by_correlation [cart_viewed, session_drop]) ''uncorrelated''
     = Some [session_drop]"
proof -
  let ?w = "world_of chain3 Throws"
  let ?c = "group_context ?w [session_drop] None"
  have n: "correlationId session_drop = None" by (simp add: session_drop_def event_of_def)
  then have h1: "correlationId session_drop = None \<or> correlationId session_drop = Some []"
    by simp
  have h2: "session_drop \<in> set [cart_viewed, session_drop]" by simp
  have c: "convertible (generated (Date_now ?w) (generator ?w (context_of ?w session_drop ?c)))"
    by (simp add: world_of_def generated_def attempt_def convertible_def
          getFallbackHypotheses_def)
  have g: "map_of (group_by_correlation [cart_viewed, session_drop]) ''uncorrelated''
             = Some [session_drop]"
    by (simp add: group_by_correlation_def correlation_key_def or_string_def cart_viewed_def
          session_drop_def event_of_def)
  from uncorrelated_report_id
         [OF h1 h2, where w = ?w and ctx = ?c and st = initial_state] n c g
  show ?thesis by simp
qed

subsection \<open>Default confidence\<close>

text \<open>
  Claim C10. The mapping of the generator's output replaces a falsy confidence by 50,
  for a hypothesis and for an evidence item alike: an absent one, and an explicit 0, as
  well as null, false, NaN and the empty string. So no mapped hypothesis and no evidence
  item of a mapped hypothesis has confidence 0, and none has a falsy confidence; the
  same holds of the fallback hypothesis.
\<close>

theorem falsy_confidence_defaults:
  "(map_hypothesis now index h = Some x \<and> get h ''confidence'' = Some c \<and> \<not> truthy c
      \<longrightarrow> confidence x = JNum (Finite 50)) \<and>
   (map_evidence e = Some ev \<and> get e ''confidence'' = Some ec \<and> \<not> truthy ec
      \<longrightarrow> confidence' ev = JNum (Finite 50)) \<and>
   \<not> truthy None \<and> \<not> truthy (Some (JNum (Finite 0))) \<and>
   (\<forall>xs. map_hypotheses now result = Some xs \<longrightarrow>
      (\<forall>x \<in> set xs.
         confidence x \<noteq> JNum (Finite 0) \<and> truthy (Some (confidence x)) \<and>
         (\<forall>ev \<in> set (evidence x).
            confidence' ev \<noteq> JNum (Finite 0) \<and> truthy (Some (confidence' ev))))) \<and>
   (\<forall>x \<in> set (generated now reply).
      confidence x \<noteq> JNum (Finite 0) \<and>
      (\<forall>ev \<in> set (evidence x). confidence' ev \<noteq> JNum (Finite 0)))"
proof -
  have 1: "map_hypothesis now index h = Some x \<and> get h ''confidence'' = Some c \<and> \<not> truthy c
             \<longrightarrow> confidence x = JNum (Finite 50)"
    using map_hypothesis_confidence[of now index h x] by (auto simp: js_or_falsy)
  have 2: "map_evidence e = Some ev \<and> get e ''confidence'' = Some ec \<and> \<not> truthy ec
             \<longrightarrow> confidence' ev = JNum (Finite 50)"
    using map_evidence_confidence[of e ev] by (auto simp: js_or_falsy)
  have 3: "\<forall>xs. map_hypotheses now result = Some xs \<longrightarrow>
      (\<forall>x \<in> set xs.
         confidence x \<noteq> JNum (Finite 0) \<and> truthy (Some (confidence x)) \<and>
         (\<forall>ev \<in> set (evidence x).
            confidence' ev \<noteq> JNum (Finite 0) \<and> truthy (Some (confidence' ev))))"
    using map_hypotheses_truthy[where now = now and result = result] truthy_nonzero by blast
  have 4: "\<forall>x \<in> set (generated now reply).
      confidence x \<noteq> JNum (Finite 0) \<and>
      (\<forall>ev \<in> set (evidence x). confidence' ev \<noteq> JNum (Finite 0))"
    using generated_truthy[where now = now and reply = reply] truthy_nonzero by blast
  from 1 2 3 4 show ?thesis by simp
qed

theorem falsy_confidence_defaults_witness:
  "get dns_hypothesis ''confidence'' = Some (Some (JNum (Finite 0))) \<and>
   map_hypothesis 1700000000000 3 dns_hypothesis
     = Some (mapped 1700000000000 3 ''dns'' (JNum (Finite 50)) [mapped_zero_evidence]) \<and>
   get zero_evidence ''confidence'' = Some (Some (JNum (Finite 0))) \<and>
   map_evidence zero_evidence = Some mapped_zero_evidence \<and>
   confidence' mapped_zero_evidence = JNum (Finite 50) \<and>
   get (raw_hypothesis ''x'' JNull) ''confidence'' = Some (Some JNull) \<and>
   map_option confidence (map_hypothesis 1700000000000 0 (raw_hypothesis ''x'' JNull))
     = Some (JNum (Finite 50)) \<and>
   get (JObj []) ''confidence'' = Some None \<and>
   map_option confidence (map_hypothesis 1700000000000 0 (JObj [])) = Some (JNum (Finite 50))"
proof -
  have g1: "get dns_hypothesis ''confidence'' = Some (Some (JNum (Finite 0)))"
    by (simp add: dns_hypothesis_def)
  have m1: "map_hypothesis 1700000000000 3 dns_hypothesis
              = Some (mapped 1700000000000 3 ''dns'' (JNum (Finite 50)) [mapped_zero_evidence])"
    by (simp add: map_hypothesis_def dns_hypothesis_def zero_evidence_def map_evidence_def
          js_or_def mapped_def mapped_zero_evidence_def)
  have g2: "get zero_evidence ''confidence'' = Some (Some (JNum (Finite 0)))"
    by (simp add: zero_evidence_def)
  have m2: "map_evidence zero_evidence = Some mapped_zero_evidence"
    by (simp add: zero_evidence_def map_evidence_def js_or_def mapped_zero_evidence_def)
  have g3: "get (raw_hypothesis ''x'' JNull) ''confidence'' = Some (Some JNull)"
    by (simp add: raw_hypothesis_def)
  obtain x3 where m3: "map_hypothesis 1700000000000 0 (raw_hypothesis ''x'' JNull) = Some x3"
    by (simp add: map_hypothesis_def raw_hypothesis_def js_or_def)
  have g4: "get (JObj []) ''confidence'' = Some None" by simp
  obtain x4 where m4: "map_hypothesis 1700000000000 0 (JObj []) = Some x4"
    by (simp add: map_hypothesis_def js_or_def)
  from falsy_confidence_defaults
         [where now = 1700000000000 and index = 3 and h = dns_hypothesis
            and x = "mapped 1700000000000 3 ''dns'' (JNum (Finite 50)) [mapped_zero_evidence]"
            and c = "Some (JNum (Finite 0))" and e = zero_evidence and ev = mapped_zero_evidence
            and ec = "Some (JNum (Finite 0))"]
       falsy_confidence_defaults
         [where now = 1700000000000 and index = 0 and h = "raw_hypothesis ''x'' JNull"
            and x = x3 and c = "Some JNull"]
       falsy_confidence_defaults
         [where now = 1700000000000 and index = 0 and h = "JObj []" and x = x4 and c = None]
       g1 m1 g2 m2 g3 m3 g4 m4
  show ?thesis by simp
qed

end
